theory Spec2Isabelle
  imports Complex_Main "HOL-Library.AList" "HOL-Library.Log_Nat"
begin

section \<open>The grid sparsifier of SparseComputation.py\<close>

text \<open>
  The class \<^verbatim>\<open>SparseComputation\<close> bins the rows of a reduced dataset into a uniform grid
  and returns the pairs of row indices that lie in the same or in neighbouring boxes.

  Modelling decisions.
  \<^item> A two-dimensional \<^verbatim>\<open>numpy.ndarray\<close> is the list of its rows. All rows of an ndarray
    have the same length; the theorems state this as \<open>rectangular\<close>. The number of columns
    is read as the code reads it, \<^verbatim>\<open>len(data[0])\<close>, which raises \<^verbatim>\<open>IndexError\<close> on an
    array without rows.
  \<^item> A reduced dataset is an array of doubles, which is what the reducers return. Its
    entries are finite and given by their exact values (\<open>rat\<close>); comparisons are exact.
    The results of the arithmetic of \<^verbatim>\<open>_rescale_data\<close> are numpy \<^verbatim>\<open>float64\<close> scalars: a
    finite value rounded to nearest (ties to even, 53 bits, subnormals below
    \<open>2 ^ (-1022)\<close>), an infinity or NaN. A numpy division by zero returns an infinity or
    NaN and raises nothing. The sign of a zero is not kept: no operation of the code
    depends on it.
  \<^item> Row indices are \<open>nat\<close>, grid coordinates and box ids are \<open>int\<close> (Python's unbounded
    integers; a box id plus an offset can be negative).
  \<^item> The \<^verbatim>\<open>isinstance\<close> checks of the methods hold by typing: every argument of the model
    is a matrix, and the coordinates handed to \<^verbatim>\<open>_index_to_boxe_id\<close> are integers.
  \<^item> A \<^verbatim>\<open>dict\<close> is an association list in insertion order, iterated in that order.
  \<^item> A leading underscore is not part of an Isabelle name: \<^verbatim>\<open>_get_min\<close> is \<open>get_min\<close>.
\<close>

datatype error = TypeError | ValueError | IndexError | ZeroDivisionError | OverflowError

type_synonym matrix = "rat list list"

type_synonym boxes = "(int \<times> nat list) list"

record SparseComputation =
  dimReducer :: "matrix \<Rightarrow> error + matrix"
  gridResolution :: int

text \<open>
  \<^verbatim>\<open>__init__\<close>: the resolution is an integer by typing, and it must be at least 1.
\<close>

definition init :: "(matrix \<Rightarrow> error + matrix) \<Rightarrow> int \<Rightarrow> error + SparseComputation" where
  "init dimReducer' gridResolution' =
     (if gridResolution' < 1 then Inl ValueError
      else Inr \<lparr>dimReducer = dimReducer', gridResolution = gridResolution'\<rparr>)"


subsection \<open>Min/max scan\<close>

text \<open>
  \<^verbatim>\<open>_get_min\<close>: \<^verbatim>\<open>minimum = np.copy(data[0])\<close>, then every row lowers the entries of
  \<^verbatim>\<open>minimum\<close> it undercuts.
\<close>

definition min_row :: "nat \<Rightarrow> rat list \<Rightarrow> rat list \<Rightarrow> rat list" where
  "min_row n vec minimum =
     fold (\<lambda>i m. if vec ! i < m ! i then m[i := vec ! i] else m) [0..<n] minimum"

definition get_min :: "matrix \<Rightarrow> error + rat list" where
  "get_min data =
     (case data of
        [] \<Rightarrow> Inl IndexError
      | row0 # _ \<Rightarrow> Inr (fold (min_row (length row0)) data row0))"

definition max_row :: "nat \<Rightarrow> rat list \<Rightarrow> rat list \<Rightarrow> rat list" where
  "max_row n vec maximum =
     fold (\<lambda>i m. if vec ! i > m ! i then m[i := vec ! i] else m) [0..<n] maximum"

definition get_max :: "matrix \<Rightarrow> error + rat list" where
  "get_max data =
     (case data of
        [] \<Rightarrow> Inl IndexError
      | row0 # _ \<Rightarrow> Inr (fold (max_row (length row0)) data row0))"

subsection \<open>Double precision\<close>

datatype float64 = Finite rat | PInf | NInf | NaN

text \<open>The powers of two, with exponents of either sign.\<close>

definition pow2 :: "int \<Rightarrow> rat" where
  "pow2 e = (if 0 \<le> e then of_int (2 ^ nat e) else 1 / of_int (2 ^ nat (- e)))"

text \<open>The exponent of a positive number: \<open>2 ^ e \<le> x < 2 ^ (e + 1)\<close>.\<close>

definition ilog2 :: "rat \<Rightarrow> int" where
  "ilog2 x =
     (case quotient_of x of
        (p, q) \<Rightarrow> (let e = bitlen p - bitlen q in if pow2 e \<le> x then e else e - 1))"

definition round_half_even :: "rat \<Rightarrow> int" where
  "round_half_even y =
     (let n = \<lfloor>y\<rfloor>; rest = y - of_int n in
      if rest < 1 / 2 then n
      else if 1 / 2 < rest then n + 1
      else if even n then n else n + 1)"

text \<open>
  The double nearest to an exact value: 53 significant bits, the least exponent -1022
  (below it the spacing stays \<open>2 ^ (-1074)\<close>), an infinity when the rounded magnitude reaches
  \<open>2 ^ 1024\<close>.
\<close>

definition round64 :: "rat \<Rightarrow> float64" where
  "round64 x =
     (if x = 0 then Finite 0
      else
        (let e = max (ilog2 \<bar>x\<bar>) (- 1022);
             ulp = pow2 (e - 52);
             y = of_int (round_half_even (\<bar>x\<bar> / ulp)) * ulp
         in if pow2 1024 \<le> y then (if 0 < x then PInf else NInf)
            else Finite (if 0 < x then y else - y)))"

text \<open>The infinity of a product or quotient with an infinite or zero operand.\<close>

definition inf_of_sign :: "rat \<Rightarrow> float64" where
  "inf_of_sign a = (if a = 0 then NaN else if 0 < a then PInf else NInf)"

text \<open>\<^verbatim>\<open>x - y\<close> on two entries of an array of finite doubles.\<close>

definition f64_sub :: "rat \<Rightarrow> rat \<Rightarrow> float64" where
  "f64_sub a b = round64 (a - b)"

text \<open>
  \<^verbatim>\<open>a / y\<close> with \<open>a\<close> a Python float and \<open>y\<close> a \<^verbatim>\<open>float64\<close> scalar: numpy's division. On a
  zero divisor it returns an infinity (NaN for \<open>0 / 0\<close>) with a warning.
\<close>

fun f64_div :: "rat \<Rightarrow> float64 \<Rightarrow> float64" where
  "f64_div a (Finite b) = (if b = 0 then inf_of_sign a else round64 (a / b))"
| "f64_div a PInf = Finite 0"
| "f64_div a NInf = Finite 0"
| "f64_div a NaN = NaN"

fun f64_mul :: "float64 \<Rightarrow> float64 \<Rightarrow> float64" where
  "f64_mul (Finite a) (Finite b) = round64 (a * b)"
| "f64_mul NaN y = NaN"
| "f64_mul x NaN = NaN"
| "f64_mul (Finite a) PInf = inf_of_sign a"
| "f64_mul (Finite a) NInf = inf_of_sign (- a)"
| "f64_mul PInf (Finite b) = inf_of_sign b"
| "f64_mul NInf (Finite b) = inf_of_sign (- b)"
| "f64_mul PInf PInf = PInf"
| "f64_mul PInf NInf = NInf"
| "f64_mul NInf PInf = NInf"
| "f64_mul NInf NInf = PInf"

text \<open>
  Python's \<^verbatim>\<open>float(n)\<close> on an integer rounds to the nearest double and raises
  \<^verbatim>\<open>OverflowError\<close> when the integer is too large.
\<close>

definition py_float :: "int \<Rightarrow> error + rat" where
  "py_float n = (case round64 (of_int n) of Finite x \<Rightarrow> Inr x | _ \<Rightarrow> Inl OverflowError)"

text \<open>
  Python's \<^verbatim>\<open>int(x)\<close> on a float truncates towards zero; it raises \<^verbatim>\<open>ValueError\<close> on
  NaN and \<^verbatim>\<open>OverflowError\<close> on an infinity.
\<close>

fun py_int :: "float64 \<Rightarrow> error + int" where
  "py_int (Finite x) = Inr (if 0 \<le> x then \<lfloor>x\<rfloor> else \<lceil>x\<rceil>)"
| "py_int NaN = Inl ValueError"
| "py_int PInf = Inl OverflowError"
| "py_int NInf = Inl OverflowError"

subsection \<open>Rescaling\<close>

text \<open>
  A loop that appends the result of every round to a list and stops at the first round
  that raises.
\<close>

fun collect :: "(error + 'a) list \<Rightarrow> error + 'a list" where
  "collect [] = Inr []"
| "collect (x # xs) =
     (case x of
        Inl e \<Rightarrow> Inl e
      | Inr v \<Rightarrow> (case collect xs of Inl e \<Rightarrow> Inl e | Inr vs \<Rightarrow> Inr (v # vs)))"

text \<open>
  \<^verbatim>\<open>float(self.gridResolution)/(maximum[i]-minimum[i])\<close>: the divisor is a \<^verbatim>\<open>float64\<close>
  scalar, so the division is numpy's and does not raise.
\<close>

definition np_truediv :: "rat \<Rightarrow> float64 \<Rightarrow> error + float64" where
  "np_truediv a y = Inr (f64_div a y)"

text \<open>
  One round of the first loop of \<^verbatim>\<open>_rescale_data\<close>: the scale factor of axis \<open>i\<close>, and 0
  where the division raises \<^verbatim>\<open>ZeroDivisionError\<close>. The handler catches no other error.
\<close>

definition coef_round :: "int \<Rightarrow> rat list \<Rightarrow> rat list \<Rightarrow> nat \<Rightarrow> error + float64" where
  "coef_round r maximum minimum i =
     (case py_float r of
        Inl e \<Rightarrow> Inl e
      | Inr r' \<Rightarrow>
          (case np_truediv r' (f64_sub (maximum ! i) (minimum ! i)) of
             Inr toAppend \<Rightarrow> Inr toAppend
           | Inl ZeroDivisionError \<Rightarrow> Inr (Finite 0)
           | Inl e \<Rightarrow> Inl e))"

definition rescale_coef :: "int \<Rightarrow> rat list \<Rightarrow> rat list \<Rightarrow> nat \<Rightarrow> error + float64 list" where
  "rescale_coef r maximum minimum n = collect (map (coef_round r maximum minimum) [0..<n])"

text \<open>
  One round of the inner loop over a row:
  \<^verbatim>\<open>min(int((vec[i]-minimum[i])*coef[i]), self.gridResolution-1)\<close>.
\<close>

definition vec_round :: "int \<Rightarrow> rat list \<Rightarrow> float64 list \<Rightarrow> rat list \<Rightarrow> nat \<Rightarrow> error + int" where
  "vec_round r minimum coef vec i =
     (case py_int (f64_mul (f64_sub (vec ! i) (minimum ! i)) (coef ! i)) of
        Inl e \<Rightarrow> Inl e
      | Inr b \<Rightarrow> Inr (min b (r - 1)))"

definition rescale_vec ::
  "int \<Rightarrow> rat list \<Rightarrow> float64 list \<Rightarrow> nat \<Rightarrow> rat list \<Rightarrow> error + int list" where
  "rescale_vec r minimum coef n vec = collect (map (vec_round r minimum coef vec) [0..<n])"

definition rescale_data :: "SparseComputation \<Rightarrow> matrix \<Rightarrow> error + int list list" where
  "rescale_data self data =
     (case data of
        [] \<Rightarrow> Inl IndexError
      | row0 # _ \<Rightarrow>
          (let n = length row0 in
           case get_max data of
             Inl e \<Rightarrow> Inl e
           | Inr maximum \<Rightarrow>
               (case get_min data of
                  Inl e \<Rightarrow> Inl e
                | Inr minimum \<Rightarrow>
                    (case rescale_coef (gridResolution self) maximum minimum n of
                       Inl e \<Rightarrow> Inl e
                     | Inr coef \<Rightarrow>
                         collect (map (rescale_vec (gridResolution self) minimum coef n)
                                    data)))))"

subsection \<open>Box ids and bucketing\<close>

text \<open>
  \<^verbatim>\<open>_index_to_boxe_id\<close> reads \<^verbatim>\<open>array[0]\<close> for its type check, which raises
  \<^verbatim>\<open>IndexError\<close> on an empty coordinate vector, then sums
  \<^verbatim>\<open>array[i]*gridResolution**i\<close>.
\<close>

definition index_to_boxe_id :: "SparseComputation \<Rightarrow> int list \<Rightarrow> error + int" where
  "index_to_boxe_id self array =
     (case array of
        [] \<Rightarrow> Inl IndexError
      | _ \<Rightarrow> Inr (fold (\<lambda>i result. result + array ! i * gridResolution self ^ i)
                    [0..<length array] 0))"

text \<open>
  One round of the loop of \<^verbatim>\<open>_get_boxes\<close>: the box's list is created on first use and
  the row index is appended to it.
\<close>

definition box_append :: "boxes \<Rightarrow> int \<Rightarrow> nat \<Rightarrow> boxes" where
  "box_append result box_id i =
     (case map_of result box_id of
        None \<Rightarrow> AList.update box_id [i] result
      | Some l \<Rightarrow> AList.update box_id (l @ [i]) result)"

fun get_boxes_loop ::
  "SparseComputation \<Rightarrow> int list list \<Rightarrow> nat list \<Rightarrow> boxes \<Rightarrow> error + boxes" where
  "get_boxes_loop self data [] result = Inr result"
| "get_boxes_loop self data (i # is) result =
     (case index_to_boxe_id self (data ! i) of
        Inl e \<Rightarrow> Inl e
      | Inr box_id \<Rightarrow> get_boxes_loop self data is (box_append result box_id i))"

definition get_boxes :: "SparseComputation \<Rightarrow> int list list \<Rightarrow> error + boxes" where
  "get_boxes self data =
     (case data of
        [] \<Rightarrow> Inl IndexError
      | _ \<Rightarrow> get_boxes_loop self data [0..<length data] [])"

subsection \<open>Neighbour expansion and pair emission\<close>

text \<open>
  \<^verbatim>\<open>itertools.product(range(-1, 2), repeat=n)\<close>: all offset vectors of length \<open>n\<close> over
  -1, 0, 1, the last position varying fastest.
\<close>

fun increments :: "nat \<Rightarrow> int list list" where
  "increments 0 = [[]]"
| "increments (Suc n) = concat (map (\<lambda>x. map ((#) x) (increments n)) [-1, 0, 1])"

definition id_incremented :: "SparseComputation \<Rightarrow> nat \<Rightarrow> int \<Rightarrow> int list \<Rightarrow> int" where
  "id_incremented self n box_id increment =
     fold (\<lambda>i acc. acc + increment ! i * gridResolution self ^ i) [0..<n] box_id"

definition add_pair :: "(nat \<times> nat) list \<Rightarrow> nat \<times> nat \<Rightarrow> (nat \<times> nat) list" where
  "add_pair pairs p = (if fst p < snd p \<and> p \<notin> set pairs then pairs @ [p] else pairs)"

definition box_lookup :: "boxes \<Rightarrow> int \<Rightarrow> nat list" where
  "box_lookup boxes_dict box_id = (case map_of boxes_dict box_id of None \<Rightarrow> [] | Some l \<Rightarrow> l)"

definition pairs_increment ::
  "SparseComputation \<Rightarrow> nat \<Rightarrow> boxes \<Rightarrow> int \<Rightarrow> int list \<Rightarrow> (nat \<times> nat) list \<Rightarrow> (nat \<times> nat) list" where
  "pairs_increment self n boxes_dict box_id increment pairs =
     (case map_of boxes_dict (id_incremented self n box_id increment) of
        None \<Rightarrow> pairs
      | Some neighbours \<Rightarrow>
          fold (\<lambda>p ps. add_pair ps p)
            (List.product (box_lookup boxes_dict box_id) neighbours) pairs)"

definition pairs_loop :: "SparseComputation \<Rightarrow> nat \<Rightarrow> boxes \<Rightarrow> (nat \<times> nat) list" where
  "pairs_loop self n boxes_dict =
     fold (\<lambda>box_id pairs. fold (pairs_increment self n boxes_dict box_id) (increments n) pairs)
       (map fst boxes_dict) []"

definition get_pairs :: "SparseComputation \<Rightarrow> matrix \<Rightarrow> error + (nat \<times> nat) list" where
  "get_pairs self data =
     (case data of
        [] \<Rightarrow> Inl IndexError
      | row0 # _ \<Rightarrow>
          if length row0 > 3 then Inl ValueError
          else
            (let n = length row0 in
             case rescale_data self data of
               Inl e \<Rightarrow> Inl e
             | Inr rescaled_data \<Rightarrow>
                 (case get_boxes self rescaled_data of
                    Inl e \<Rightarrow> Inl e
                  | Inr boxes_dict \<Rightarrow> Inr (pairs_loop self n boxes_dict))))"

definition get_similar_indices :: "SparseComputation \<Rightarrow> matrix \<Rightarrow> error + (nat \<times> nat) list" where
  "get_similar_indices self data =
     (case dimReducer self data of
        Inl e \<Rightarrow> Inl e
      | Inr reduced_data \<Rightarrow> get_pairs self reduced_data)"


subsection \<open>The rescaling as the specification words it\<close>

text \<open>
  The specification describes the rescaled coordinate through the observed minimum and
  maximum of an axis, the scale factor \<open>resolution / (max - min)\<close> (zero on a constant
  axis) and the floor of the scaled offset, clamped to \<open>[0, resolution - 1]\<close>. These
  definitions follow its words, with the arithmetic of the doubles; the theorems compare
  them with the code. The resolution enters as the double \<open>r'\<close> that \<^verbatim>\<open>float\<close> makes of it.
\<close>

definition axis_min :: "matrix \<Rightarrow> nat \<Rightarrow> rat" where
  "axis_min data i = Min ((\<lambda>vec. vec ! i) ` set data)"

definition axis_max :: "matrix \<Rightarrow> nat \<Rightarrow> rat" where
  "axis_max data i = Max ((\<lambda>vec. vec ! i) ` set data)"

definition axis_scale :: "rat \<Rightarrow> matrix \<Rightarrow> nat \<Rightarrow> float64" where
  "axis_scale r' data i =
     (if axis_max data i = axis_min data i then Finite 0
      else f64_div r' (f64_sub (axis_max data i) (axis_min data i)))"

definition scaled_offset :: "rat \<Rightarrow> matrix \<Rightarrow> nat \<Rightarrow> nat \<Rightarrow> float64" where
  "scaled_offset r' data a i =
     f64_mul (f64_sub (data ! a ! i) (axis_min data i)) (axis_scale r' data i)"

definition spec_bin :: "int \<Rightarrow> rat \<Rightarrow> int" where
  "spec_bin r p = max 0 (min (r - 1) \<lfloor>p\<rfloor>)"

text \<open>
  The box id as the specification words it: the mixed-radix value of the coordinate
  vector, axis \<open>i\<close> contributing \<open>coordinate[i] * resolution^i\<close>.
\<close>

definition mixed_radix :: "int \<Rightarrow> int list \<Rightarrow> int" where
  "mixed_radix r coordinate = (\<Sum>i < length coordinate. coordinate ! i * r ^ i)"

text \<open>
  The output contract of the pair list: no entry twice, and the smaller index first.
\<close>

definition oriented :: "(nat \<times> nat) list \<Rightarrow> bool" where
  "oriented ps = (distinct ps \<and> (\<forall>p \<in> set ps. fst p < snd p))"


subsection \<open>The arrays as objects in a store\<close>

text \<open>
  The functions above take a matrix by value, so they cannot say whether a method
  changes the array it is given. A numpy array is a mutable object: \<^verbatim>\<open>data[0]\<close> and the
  rows of \<^verbatim>\<open>for vec in data\<close> are views that share the memory of \<^verbatim>\<open>data\<close>, and an item
  assignment to a view changes \<^verbatim>\<open>data\<close>. For the frame properties the methods are
  modelled a second time over a store: every row lives at an address, a two-dimensional
  array is the list of the addresses of its rows, \<^verbatim>\<open>np.copy\<close> allocates a new row and
  \<^verbatim>\<open>minimum[i] = x\<close> writes to the row at the address of \<^verbatim>\<open>minimum\<close>. Python lists and
  the dict are local values, as before.
\<close>

record 'a store =
  cells :: "nat \<Rightarrow> 'a list"
  next_free :: nat

type_synonym ndarray = "nat list"

definition empty_store :: "'a store" where
  "empty_store = \<lparr>cells = (\<lambda>p. []), next_free = 0\<rparr>"

definition read_matrix :: "'a store \<Rightarrow> ndarray \<Rightarrow> 'a list list" where
  "read_matrix s data = map (cells s) data"

definition new_row :: "'a list \<Rightarrow> 'a store \<Rightarrow> nat \<times> 'a store" where
  "new_row xs s =
     (next_free s, s\<lparr>cells := (cells s)(next_free s := xs), next_free := Suc (next_free s)\<rparr>)"

definition np_copy :: "nat \<Rightarrow> 'a store \<Rightarrow> nat \<times> 'a store" where
  "np_copy p s = new_row (cells s p) s"

definition setitem :: "nat \<Rightarrow> nat \<Rightarrow> 'a \<Rightarrow> 'a store \<Rightarrow> 'a store" where
  "setitem p i x s = s\<lparr>cells := (cells s)(p := (cells s p)[i := x])\<rparr>"

text \<open>\<^verbatim>\<open>np.array(rows)\<close> on a list of lists: a new array, one new row per list.\<close>

fun np_array :: "'a list list \<Rightarrow> 'a store \<Rightarrow> ndarray \<times> 'a store" where
  "np_array [] s = ([], s)"
| "np_array (xs # rows) s =
     (case new_row xs s of (p, s1) \<Rightarrow>
        (case np_array rows s1 of (ps, s2) \<Rightarrow> (p # ps, s2)))"

definition min_row_st :: "nat \<Rightarrow> nat \<Rightarrow> nat \<Rightarrow> rat store \<Rightarrow> rat store" where
  "min_row_st n minimum vec s =
     fold (\<lambda>i s. if cells s vec ! i < cells s minimum ! i
                  then setitem minimum i (cells s vec ! i) s else s) [0..<n] s"

definition get_min_st :: "ndarray \<Rightarrow> rat store \<Rightarrow> (error + nat) \<times> rat store" where
  "get_min_st data s =
     (case data of
        [] \<Rightarrow> (Inl IndexError, s)
      | row0 # _ \<Rightarrow>
          (let n = length (cells s row0) in
           case np_copy row0 s of
             (minimum, s1) \<Rightarrow> (Inr minimum, fold (min_row_st n minimum) data s1)))"

definition max_row_st :: "nat \<Rightarrow> nat \<Rightarrow> nat \<Rightarrow> rat store \<Rightarrow> rat store" where
  "max_row_st n maximum vec s =
     fold (\<lambda>i s. if cells s vec ! i > cells s maximum ! i
                  then setitem maximum i (cells s vec ! i) s else s) [0..<n] s"

definition get_max_st :: "ndarray \<Rightarrow> rat store \<Rightarrow> (error + nat) \<times> rat store" where
  "get_max_st data s =
     (case data of
        [] \<Rightarrow> (Inl IndexError, s)
      | row0 # _ \<Rightarrow>
          (let n = length (cells s row0) in
           case np_copy row0 s of
             (maximum, s1) \<Rightarrow> (Inr maximum, fold (max_row_st n maximum) data s1)))"

text \<open>
  \<^verbatim>\<open>_rescale_data\<close> reads \<^verbatim>\<open>data\<close>, \<^verbatim>\<open>maximum\<close> and \<^verbatim>\<open>minimum\<close> and builds Python lists.
  Its result \<^verbatim>\<open>np.array(rescaled_data)\<close> is a new array of integers; it is returned as
  the list of its rows, and \<^verbatim>\<open>_get_pairs\<close> places it in a store of integer rows of its
  own, where \<^verbatim>\<open>_get_boxes\<close> reads it.
\<close>

definition rescale_data_st ::
  "SparseComputation \<Rightarrow> ndarray \<Rightarrow> rat store \<Rightarrow> (error + int list list) \<times> rat store" where
  "rescale_data_st self data s =
     (case data of
        [] \<Rightarrow> (Inl IndexError, s)
      | row0 # _ \<Rightarrow>
          (let n = length (cells s row0) in
           case get_max_st data s of
             (Inl e, s1) \<Rightarrow> (Inl e, s1)
           | (Inr maximum, s1) \<Rightarrow>
               (case get_min_st data s1 of
                  (Inl e, s2) \<Rightarrow> (Inl e, s2)
                | (Inr minimum, s2) \<Rightarrow>
                    (case rescale_coef (gridResolution self)
                            (cells s2 maximum) (cells s2 minimum) n of
                       Inl e \<Rightarrow> (Inl e, s2)
                     | Inr coef \<Rightarrow>
                         (collect (map (\<lambda>vec. rescale_vec (gridResolution self)
                                            (cells s2 minimum) coef n (cells s2 vec)) data),
                          s2)))))"

fun get_boxes_loop_st ::
  "SparseComputation \<Rightarrow> ndarray \<Rightarrow> nat list \<Rightarrow> boxes \<Rightarrow> int store
     \<Rightarrow> (error + boxes) \<times> int store" where
  "get_boxes_loop_st self data [] result t = (Inr result, t)"
| "get_boxes_loop_st self data (i # is) result t =
     (case index_to_boxe_id self (cells t (data ! i)) of
        Inl e \<Rightarrow> (Inl e, t)
      | Inr box_id \<Rightarrow> get_boxes_loop_st self data is (box_append result box_id i) t)"

definition get_boxes_st ::
  "SparseComputation \<Rightarrow> ndarray \<Rightarrow> int store \<Rightarrow> (error + boxes) \<times> int store" where
  "get_boxes_st self data t =
     (case data of
        [] \<Rightarrow> (Inl IndexError, t)
      | _ \<Rightarrow> get_boxes_loop_st self data [0..<length data] [] t)"

definition get_pairs_st ::
  "SparseComputation \<Rightarrow> ndarray \<Rightarrow> rat store \<Rightarrow> (error + (nat \<times> nat) list) \<times> rat store" where
  "get_pairs_st self data s =
     (case data of
        [] \<Rightarrow> (Inl IndexError, s)
      | row0 # _ \<Rightarrow>
          if length (cells s row0) > 3 then (Inl ValueError, s)
          else
            (let n = length (cells s row0) in
             case rescale_data_st self data s of
               (Inl e, s1) \<Rightarrow> (Inl e, s1)
             | (Inr rescaled, s1) \<Rightarrow>
                 (case np_array rescaled empty_store of
                    (rescaled_data, t) \<Rightarrow>
                      (case get_boxes_st self rescaled_data t of
                         (Inl e, _) \<Rightarrow> (Inl e, s1)
                       | (Inr boxes_dict, _) \<Rightarrow> (Inr (pairs_loop self n boxes_dict), s1)))))"

section \<open>Rounding to double precision\<close>

lemma pow2_powi: "pow2 e = 2 powi e"
  by (simp add: pow2_def power_int_def field_simps)

lemma pow2_pos: "0 < pow2 e"
  by (simp add: pow2_powi)

lemma pow2_add: "pow2 (a + b) = pow2 a * pow2 b"
  by (simp add: pow2_powi power_int_add)


lemma pow2_nat: "pow2 (int n) = 2 ^ n"
  by (simp add: pow2_def)

lemma ilog2_bounds:
  assumes "0 < x"
  shows "pow2 (ilog2 x) \<le> x \<and> x < pow2 (ilog2 x + 1)"
proof -
  obtain p q where pq: "quotient_of x = (p, q)" by (cases "quotient_of x")
  have q: "0 < q" using quotient_of_denom_pos [OF pq] .
  have x: "x = of_int p / of_int q" using quotient_of_div [OF pq] .
  have p: "0 < p" using assms q unfolding x by (simp add: zero_less_divide_iff)
  define bp where "bp = bitlen p"
  define bq where "bq = bitlen q"
  have bp1: "1 \<le> bp" and bq1: "1 \<le> bq"
    using p q bitlen_eq_zero_iff [of p] bitlen_eq_zero_iff [of q] bitlen_nonneg [of p]
      bitlen_nonneg [of q] unfolding bp_def bq_def by linarith+
  have pb: "pow2 (bp - 1) \<le> of_int p" "of_int p < pow2 bp"
    using bitlen_bounds [OF p] bp1 unfolding bp_def [symmetric]
    by (simp_all add: pow2_def flip: of_int_power) 
  have qb: "pow2 (bq - 1) \<le> of_int q" "of_int q < pow2 bq"
    using bitlen_bounds [OF q] bq1 unfolding bq_def [symmetric]
    by (simp_all add: pow2_def flip: of_int_power)
  have qpos: "(0 :: rat) < of_int q" using q by simp
  have lo: "pow2 (bp - bq - 1) < x"
  proof -
    have "pow2 (bp - bq - 1) * of_int q < pow2 (bp - bq - 1) * pow2 bq"
      using qb(2) by (simp add: pow2_pos)
    also have "\<dots> = pow2 (bp - 1)" by (simp flip: pow2_add)
    also have "\<dots> \<le> of_int p" by (rule pb(1))
    finally show ?thesis unfolding x using qpos by (simp add: pos_less_divide_eq)
  qed
  have hi: "x < pow2 (bp - bq + 1)"
  proof -
    have "of_int p < pow2 bp" by (rule pb(2))
    also have "\<dots> = pow2 (bp - bq + 1) * pow2 (bq - 1)" by (simp flip: pow2_add)
    also have "\<dots> \<le> pow2 (bp - bq + 1) * of_int q"
      using qb(1) by (simp add: pow2_pos)
    finally show ?thesis unfolding x using qpos by (simp add: pos_divide_less_eq)
  qed
  have il: "ilog2 x = (if pow2 (bp - bq) \<le> x then bp - bq else bp - bq - 1)"
    by (simp add: ilog2_def pq bp_def bq_def Let_def)
  show ?thesis
  proof (cases "pow2 (bp - bq) \<le> x")
    case True
    then show ?thesis using hi by (simp add: il)
  next
    case False
    then show ?thesis using lo by (simp add: il)
  qed
qed

lemma round_half_even_error: "\<bar>of_int (round_half_even y) - y\<bar> \<le> 1 / 2"
proof -
  have "of_int \<lfloor>y\<rfloor> \<le> y" "y < of_int \<lfloor>y\<rfloor> + 1" by linarith+
  then show ?thesis by (auto simp: round_half_even_def Let_def abs_le_iff)
qed

lemma round_half_even_nonneg: "0 \<le> y \<Longrightarrow> 0 \<le> round_half_even y"
  by (auto simp: round_half_even_def Let_def)

text \<open>
  A finite result of the rounding has the sign of the exact value, lies below \<open>2 ^ 1024\<close>,
  and differs from the exact value by at most half a unit in the last place.
\<close>

lemma round64_Finite:
  assumes "round64 x = Finite y"
  shows "\<bar>y - x\<bar> \<le> \<bar>x\<bar> * pow2 (- 53) + pow2 (- 1075)"
    and "0 \<le> x \<Longrightarrow> 0 \<le> y"
    and "x \<le> 0 \<Longrightarrow> y \<le> 0"
    and "\<bar>y\<bar> < pow2 1024"
proof -
  define a where "a = \<bar>x\<bar>"
  define e where "e = max (ilog2 a) (- 1022)"
  define ulp where "ulp = pow2 (e - 52)"
  define m where "m = round_half_even (a / ulp)"
  define y0 where "y0 = of_int m * ulp"
  have ulp: "0 < ulp" by (simp add: ulp_def pow2_pos)
  have half: "ulp / 2 = pow2 (e - 53)"
  proof -
    have "pow2 (e - 52) = pow2 (e - 53) * pow2 1" by (simp flip: pow2_add)
    then show ?thesis by (simp add: ulp_def pow2_def)
  qed
  have res: "x \<noteq> 0 \<Longrightarrow> round64 x =
      (if pow2 1024 \<le> y0 then (if 0 < x then PInf else NInf)
       else Finite (if 0 < x then y0 else - y0))"
    by (simp add: round64_def Let_def a_def e_def ulp_def m_def y0_def)
  have m0: "0 \<le> m" unfolding m_def
    using ulp by (intro round_half_even_nonneg) (simp add: a_def)
  have y0: "0 \<le> y0" using m0 ulp by (simp add: y0_def)
  have err: "\<bar>y0 - a\<bar> \<le> ulp / 2"
  proof -
    have "y0 - a = (of_int m - a / ulp) * ulp"
      using ulp by (simp add: y0_def field_simps)
    then have "\<bar>y0 - a\<bar> = \<bar>of_int m - a / ulp\<bar> * ulp"
      using ulp by (simp add: abs_mult)
    also have "\<dots> \<le> (1 / 2) * ulp"
      unfolding m_def using ulp round_half_even_error [of "a / ulp"]
      by (intro mult_right_mono) simp_all
    finally show ?thesis by simp
  qed
  have bound: "ulp / 2 \<le> a * pow2 (- 53) + pow2 (- 1075)" if "x \<noteq> 0"
  proof (cases "- 1022 \<le> ilog2 a")
    case True
    have a: "0 < a" using that by (simp add: a_def)
    have "e = ilog2 a" using True by (simp add: e_def)
    then have "pow2 e \<le> a" using ilog2_bounds [OF a] by simp
    then have "pow2 e * pow2 (- 53) \<le> a * pow2 (- 53)"
      by (intro mult_right_mono) (simp_all add: less_imp_le [OF pow2_pos])
    moreover have "pow2 e * pow2 (- 53) = ulp / 2"
      unfolding half by (simp flip: pow2_add)
    moreover have "0 \<le> pow2 (- 1075)" by (rule less_imp_le [OF pow2_pos])
    ultimately show ?thesis by linarith
  next
    case False
    then have "e = - 1022" by (simp add: e_def)
    then have "ulp / 2 = pow2 (- 1075)" unfolding half by simp
    moreover have "0 \<le> a * pow2 (- 53)"
      by (simp add: a_def less_imp_le [OF pow2_pos])
    ultimately show ?thesis by linarith
  qed
  show "\<bar>y - x\<bar> \<le> \<bar>x\<bar> * pow2 (- 53) + pow2 (- 1075)"
  proof (cases "x = 0")
    case True
    then show ?thesis using assms by (simp add: round64_def less_imp_le [OF pow2_pos])
  next
    case False
    have "y = (if 0 < x then y0 else - y0)"
      using assms res [OF False] by (simp split: if_splits)
    then have "\<bar>y - x\<bar> = \<bar>y0 - a\<bar>"
      using False by (auto simp: a_def)
    then show ?thesis using err bound [OF False] by (simp add: a_def)
  qed
  show "0 \<le> y" if "0 \<le> x"
  proof (cases "x = 0")
    case True
    then show ?thesis using assms by (simp add: round64_def)
  next
    case False
    then show ?thesis using assms res [OF False] that y0 by (simp split: if_splits)
  qed
  show "y \<le> 0" if "x \<le> 0"
  proof (cases "x = 0")
    case True
    then show ?thesis using assms by (simp add: round64_def)
  next
    case False
    then show ?thesis using assms res [OF False] that y0 by (simp split: if_splits)
  qed
  show "\<bar>y\<bar> < pow2 1024"
  proof (cases "x = 0")
    case True
    then show ?thesis using assms by (simp add: round64_def pow2_pos)
  next
    case False
    then show ?thesis using assms res [OF False] y0 by (auto split: if_splits)
  qed
qed

lemma round64_zero: "round64 0 = Finite 0"
  by (simp add: round64_def)

lemma f64_mul_Finite:
  assumes "f64_mul a b = Finite p"
  obtains x y where "a = Finite x" "b = Finite y" "round64 (x * y) = Finite p"
  using assms by (cases a; cases b) (auto simp: inf_of_sign_def split: if_splits)

lemma f64_mul_zero_not_Finite:
  assumes "b = PInf \<or> b = NInf \<or> b = NaN"
  shows "f64_mul (Finite 0) b = NaN"
  using assms by (auto simp: inf_of_sign_def)

section \<open>The min/max scan computes the extremes of every axis\<close>

lemma length_min_row: "length (min_row n vec m) = length m"
  unfolding min_row_def by (induction n) simp_all

lemma min_row_Suc:
  "min_row (Suc n) vec m =
     (if vec ! n < min_row n vec m ! n then (min_row n vec m)[n := vec ! n] else min_row n vec m)"
  by (simp add: min_row_def)

lemma min_row_0: "min_row 0 vec m = m"
  by (simp add: min_row_def)

lemma nth_min_row:
  "i < length m \<Longrightarrow> min_row n vec m ! i = (if i < n then min (vec ! i) (m ! i) else m ! i)"
  by (induction n)
    (auto simp: min_row_0 min_row_Suc length_min_row nth_list_update less_Suc_eq)

lemma length_fold_min_row: "length (fold (min_row n) data m) = length m"
  by (induction data arbitrary: m) (simp_all add: length_min_row)

lemma fold_min_row_le_init:
  "i < n \<Longrightarrow> i < length m \<Longrightarrow> fold (min_row n) data m ! i \<le> m ! i"
proof (induction data arbitrary: m)
  case Nil
  then show ?case by simp
next
  case (Cons vec data)
  have "fold (min_row n) data (min_row n vec m) ! i \<le> min_row n vec m ! i"
    using Cons.prems by (intro Cons.IH) (simp_all add: length_min_row)
  also have "\<dots> \<le> m ! i"
    using Cons.prems by (simp add: nth_min_row)
  finally show ?case by simp
qed

lemma fold_min_row_le:
  "i < n \<Longrightarrow> i < length m \<Longrightarrow> vec \<in> set data \<Longrightarrow> fold (min_row n) data m ! i \<le> vec ! i"
proof (induction data arbitrary: m)
  case Nil
  then show ?case by simp
next
  case (Cons v data)
  show ?case
  proof (cases "vec = v")
    case True
    have "fold (min_row n) data (min_row n v m) ! i \<le> min_row n v m ! i"
      using Cons.prems by (intro fold_min_row_le_init) (simp_all add: length_min_row)
    also have "\<dots> \<le> v ! i"
      using Cons.prems by (simp add: nth_min_row)
    finally show ?thesis using True by simp
  next
    case False
    then have "vec \<in> set data" using Cons.prems by simp
    then show ?thesis
      using Cons.prems Cons.IH [of "min_row n v m"] by (simp add: length_min_row)
  qed
qed

lemma fold_min_row_mem:
  "i < n \<Longrightarrow> i < length m \<Longrightarrow>
   fold (min_row n) data m ! i = m ! i \<or> (\<exists>vec \<in> set data. fold (min_row n) data m ! i = vec ! i)"
proof (induction data arbitrary: m)
  case Nil
  then show ?case by simp
next
  case (Cons v data)
  have "fold (min_row n) data (min_row n v m) ! i = min_row n v m ! i
      \<or> (\<exists>vec \<in> set data. fold (min_row n) data (min_row n v m) ! i = vec ! i)"
    using Cons.prems by (intro Cons.IH) (simp_all add: length_min_row)
  moreover have "min_row n v m ! i = m ! i \<or> min_row n v m ! i = v ! i"
    using Cons.prems by (simp add: nth_min_row min_def)
  ultimately show ?case by auto
qed

lemma get_min_scan:
  assumes "data \<noteq> []"
  obtains minimum where "get_min data = Inr minimum" "length minimum = length (hd data)"
    "\<And>i vec. i < length (hd data) \<Longrightarrow> vec \<in> set data \<Longrightarrow> minimum ! i \<le> vec ! i"
    "\<And>i. i < length (hd data) \<Longrightarrow> \<exists>vec \<in> set data. minimum ! i = vec ! i"
proof -
  obtain row0 rest where d: "data = row0 # rest" using assms by (cases data) auto
  let ?m = "fold (min_row (length row0)) data row0"
  have 1: "get_min data = Inr ?m" by (simp add: get_min_def d)
  have hd: "hd data = row0" by (simp add: d)
  have 2: "length ?m = length (hd data)" by (simp only: length_fold_min_row hd)
  have 3: "?m ! i \<le> vec ! i" if "i < length (hd data)" "vec \<in> set data" for i vec
    using that by (intro fold_min_row_le) (simp_all add: d)
  have 4: "\<exists>vec \<in> set data. ?m ! i = vec ! i" if "i < length (hd data)" for i
  proof -
    have "?m ! i = row0 ! i \<or> (\<exists>vec \<in> set data. ?m ! i = vec ! i)"
      using that by (intro fold_min_row_mem) (simp_all add: d)
    moreover have "row0 \<in> set data" by (simp add: d)
    ultimately show ?thesis by blast
  qed
  show thesis using that [OF 1 2 3 4] by blast
qed

lemma length_max_row: "length (max_row n vec m) = length m"
  unfolding max_row_def by (induction n) simp_all

lemma max_row_Suc:
  "max_row (Suc n) vec m =
     (if vec ! n > max_row n vec m ! n then (max_row n vec m)[n := vec ! n] else max_row n vec m)"
  by (simp add: max_row_def)

lemma max_row_0: "max_row 0 vec m = m"
  by (simp add: max_row_def)

lemma nth_max_row:
  "i < length m \<Longrightarrow> max_row n vec m ! i = (if i < n then max (vec ! i) (m ! i) else m ! i)"
  by (induction n)
    (auto simp: max_row_0 max_row_Suc length_max_row nth_list_update less_Suc_eq)

lemma length_fold_max_row: "length (fold (max_row n) data m) = length m"
  by (induction data arbitrary: m) (simp_all add: length_max_row)

lemma fold_max_row_ge_init:
  "i < n \<Longrightarrow> i < length m \<Longrightarrow> m ! i \<le> fold (max_row n) data m ! i"
proof (induction data arbitrary: m)
  case Nil
  then show ?case by simp
next
  case (Cons vec data)
  have "m ! i \<le> max_row n vec m ! i"
    using Cons.prems by (simp add: nth_max_row)
  also have "\<dots> \<le> fold (max_row n) data (max_row n vec m) ! i"
    using Cons.prems by (intro Cons.IH) (simp_all add: length_max_row)
  finally show ?case by simp
qed

lemma fold_max_row_ge:
  "i < n \<Longrightarrow> i < length m \<Longrightarrow> vec \<in> set data \<Longrightarrow> vec ! i \<le> fold (max_row n) data m ! i"
proof (induction data arbitrary: m)
  case Nil
  then show ?case by simp
next
  case (Cons v data)
  show ?case
  proof (cases "vec = v")
    case True
    have "v ! i \<le> max_row n v m ! i"
      using Cons.prems by (simp add: nth_max_row)
    also have "\<dots> \<le> fold (max_row n) data (max_row n v m) ! i"
      using Cons.prems by (intro fold_max_row_ge_init) (simp_all add: length_max_row)
    finally show ?thesis using True by simp
  next
    case False
    then have "vec \<in> set data" using Cons.prems by simp
    then show ?thesis
      using Cons.prems Cons.IH [of "max_row n v m"] by (simp add: length_max_row)
  qed
qed

lemma fold_max_row_mem:
  "i < n \<Longrightarrow> i < length m \<Longrightarrow>
   fold (max_row n) data m ! i = m ! i \<or> (\<exists>vec \<in> set data. fold (max_row n) data m ! i = vec ! i)"
proof (induction data arbitrary: m)
  case Nil
  then show ?case by simp
next
  case (Cons v data)
  have "fold (max_row n) data (max_row n v m) ! i = max_row n v m ! i
      \<or> (\<exists>vec \<in> set data. fold (max_row n) data (max_row n v m) ! i = vec ! i)"
    using Cons.prems by (intro Cons.IH) (simp_all add: length_max_row)
  moreover have "max_row n v m ! i = m ! i \<or> max_row n v m ! i = v ! i"
    using Cons.prems by (simp add: nth_max_row max_def)
  ultimately show ?case by auto
qed

lemma get_max_scan:
  assumes "data \<noteq> []"
  obtains maximum where "get_max data = Inr maximum" "length maximum = length (hd data)"
    "\<And>i vec. i < length (hd data) \<Longrightarrow> vec \<in> set data \<Longrightarrow> vec ! i \<le> maximum ! i"
    "\<And>i. i < length (hd data) \<Longrightarrow> \<exists>vec \<in> set data. maximum ! i = vec ! i"
proof -
  obtain row0 rest where d: "data = row0 # rest" using assms by (cases data) auto
  let ?m = "fold (max_row (length row0)) data row0"
  have 1: "get_max data = Inr ?m" by (simp add: get_max_def d)
  have hd: "hd data = row0" by (simp add: d)
  have 2: "length ?m = length (hd data)" by (simp only: length_fold_max_row hd)
  have 3: "vec ! i \<le> ?m ! i" if "i < length (hd data)" "vec \<in> set data" for i vec
    using that by (intro fold_max_row_ge) (simp_all add: d)
  have 4: "\<exists>vec \<in> set data. ?m ! i = vec ! i" if "i < length (hd data)" for i
  proof -
    have "?m ! i = row0 ! i \<or> (\<exists>vec \<in> set data. ?m ! i = vec ! i)"
      using that by (intro fold_max_row_mem) (simp_all add: d)
    moreover have "row0 \<in> set data" by (simp add: d)
    ultimately show ?thesis by blast
  qed
  show thesis using that [OF 1 2 3 4] by blast
qed

section \<open>The rescaled matrix\<close>

lemma get_min_axis:
  assumes "data \<noteq> []" "get_min data = Inr minimum" "i < length (hd data)"
  shows "minimum ! i = axis_min data i"
proof -
  obtain m where m: "get_min data = Inr m"
    "\<And>i vec. i < length (hd data) \<Longrightarrow> vec \<in> set data \<Longrightarrow> m ! i \<le> vec ! i"
    "\<And>i. i < length (hd data) \<Longrightarrow> \<exists>vec \<in> set data. m ! i = vec ! i"
    using get_min_scan [OF assms(1)] by metis
  have eq: "m = minimum" using m(1) assms(2) by simp
  have "Min ((\<lambda>vec. vec ! i) ` set data) = m ! i"
  proof (rule Min_eqI)
    show "finite ((\<lambda>vec. vec ! i) ` set data)" by simp
    show "m ! i \<le> y" if "y \<in> (\<lambda>vec. vec ! i) ` set data" for y
      using that m(2) [OF assms(3)] by auto
    show "m ! i \<in> (\<lambda>vec. vec ! i) ` set data"
      using m(3) [OF assms(3)] by auto
  qed
  then show ?thesis by (simp add: axis_min_def eq)
qed

lemma get_max_axis:
  assumes "data \<noteq> []" "get_max data = Inr maximum" "i < length (hd data)"
  shows "maximum ! i = axis_max data i"
proof -
  obtain m where m: "get_max data = Inr m"
    "\<And>i vec. i < length (hd data) \<Longrightarrow> vec \<in> set data \<Longrightarrow> vec ! i \<le> m ! i"
    "\<And>i. i < length (hd data) \<Longrightarrow> \<exists>vec \<in> set data. m ! i = vec ! i"
    using get_max_scan [OF assms(1)] by metis
  have eq: "m = maximum" using m(1) assms(2) by simp
  have "Max ((\<lambda>vec. vec ! i) ` set data) = m ! i"
  proof (rule Max_eqI)
    show "finite ((\<lambda>vec. vec ! i) ` set data)" by simp
    show "y \<le> m ! i" if "y \<in> (\<lambda>vec. vec ! i) ` set data" for y
      using that m(2) [OF assms(3)] by auto
    show "m ! i \<in> (\<lambda>vec. vec ! i) ` set data"
      using m(3) [OF assms(3)] by auto
  qed
  then show ?thesis by (simp add: axis_max_def eq)
qed

lemma axis_min_le: "a < length data \<Longrightarrow> axis_min data i \<le> data ! a ! i"
  by (simp add: axis_min_def)

lemma axis_max_ge: "a < length data \<Longrightarrow> data ! a ! i \<le> axis_max data i"
  by (simp add: axis_max_def)

lemma axis_max_attained:
  assumes "data \<noteq> []"
  obtains a where "a < length data" "data ! a ! i = axis_max data i"
proof -
  have "axis_max data i \<in> (\<lambda>vec. vec ! i) ` set data"
    unfolding axis_max_def using assms by (intro Max_in) simp_all
  then obtain vec where "vec \<in> set data" "axis_max data i = vec ! i" by auto
  then show thesis using that by (auto simp: in_set_conv_nth)
qed

text \<open>A loop that returns has returned in every round.\<close>

lemma collect_Inr:
  "collect xs = Inr vs \<Longrightarrow> length vs = length xs \<and> (\<forall>i < length xs. xs ! i = Inr (vs ! i))"
proof (induction xs arbitrary: vs)
  case Nil
  then show ?case by simp
next
  case (Cons x xs)
  from Cons.prems obtain v vs' where x: "x = Inr v" and r: "collect xs = Inr vs'"
    and vs: "vs = v # vs'"
    by (auto split: sum.splits)
  from Cons.IH [OF r] show ?case
    unfolding vs x by (auto simp: nth_Cons split: nat.splits)
qed

lemma collect_map_Inr:
  assumes "collect (map f xs) = Inr vs"
  shows "length vs = length xs" and "i < length xs \<Longrightarrow> f (xs ! i) = Inr (vs ! i)"
  using collect_Inr [OF assms] by auto

lemma rescale_data_Inr:
  assumes "rescale_data self data = Inr M"
  obtains maximum minimum coef where "data \<noteq> []"
    "get_max data = Inr maximum" "get_min data = Inr minimum"
    "rescale_coef (gridResolution self) maximum minimum (length (hd data)) = Inr coef"
    "collect (map (rescale_vec (gridResolution self) minimum coef (length (hd data))) data)
       = Inr M"
  using assms
  by (cases data) (auto simp: rescale_data_def Let_def split: sum.splits)

lemma rescale_data_shape:
  assumes "rescale_data self data = Inr M"
  shows "length M = length data"
    and "a < length data \<Longrightarrow> length (M ! a) = length (hd data)"
proof -
  from assms obtain maximum minimum coef where
    c: "collect (map (rescale_vec (gridResolution self) minimum coef (length (hd data))) data)
       = Inr M"
    by (rule rescale_data_Inr)
  show "length M = length data" by (rule collect_map_Inr(1) [OF c])
  show "length (M ! a) = length (hd data)" if "a < length data"
  proof -
    have "rescale_vec (gridResolution self) minimum coef (length (hd data)) (data ! a)
        = Inr (M ! a)"
      by (rule collect_map_Inr(2) [OF c that])
    then show ?thesis
      unfolding rescale_vec_def using collect_map_Inr(1) by fastforce
  qed
qed

text \<open>
  Every entry of a returned matrix: the resolution has a double \<open>r'\<close>, the scaled offset
  is a finite double \<open>p\<close>, and the entry is the truncation of \<open>p\<close>, at most
  \<open>resolution - 1\<close>.
\<close>

lemma rescale_data_entry:
  assumes "rescale_data self data = Inr M" "a < length data" "i < length (hd data)"
  obtains r' p where "py_float (gridResolution self) = Inr r'"
    "f64_mul (f64_sub (data ! a ! i) (axis_min data i))
       (f64_div r' (f64_sub (axis_max data i) (axis_min data i))) = Finite p"
    "M ! a ! i = min (if 0 \<le> p then \<lfloor>p\<rfloor> else \<lceil>p\<rceil>) (gridResolution self - 1)"
proof -
  let ?r = "gridResolution self"
  let ?k = "length (hd data)"
  from assms(1) obtain maximum minimum coef where ne: "data \<noteq> []"
    and mx: "get_max data = Inr maximum" and mn: "get_min data = Inr minimum"
    and co: "rescale_coef ?r maximum minimum ?k = Inr coef"
    and c: "collect (map (rescale_vec ?r minimum coef ?k) data) = Inr M"
    by (rule rescale_data_Inr)
  have mxi: "maximum ! i = axis_max data i" by (rule get_max_axis [OF ne mx assms(3)])
  have mni: "minimum ! i = axis_min data i" by (rule get_min_axis [OF ne mn assms(3)])
  have cr: "coef_round ?r maximum minimum i = Inr (coef ! i)"
    using collect_map_Inr(2) [OF co [unfolded rescale_coef_def], of i] assms(3) by simp
  then obtain r' where r': "py_float ?r = Inr r'"
    and ci: "coef ! i = f64_div r' (f64_sub (axis_max data i) (axis_min data i))"
    by (auto simp: coef_round_def np_truediv_def mxi mni split: sum.splits)
  have row: "rescale_vec ?r minimum coef ?k (data ! a) = Inr (M ! a)"
    by (rule collect_map_Inr(2) [OF c assms(2)])
  have vr: "vec_round ?r minimum coef (data ! a) i = Inr (M ! a ! i)"
    using collect_map_Inr(2) [OF row [unfolded rescale_vec_def], of i] assms(3) by simp
  then obtain b where b: "py_int (f64_mul (f64_sub (data ! a ! i) (axis_min data i))
        (f64_div r' (f64_sub (axis_max data i) (axis_min data i)))) = Inr b"
    and Mb: "M ! a ! i = min b (?r - 1)"
    by (auto simp: vec_round_def mni ci split: sum.splits)
  from b obtain p where p: "f64_mul (f64_sub (data ! a ! i) (axis_min data i))
        (f64_div r' (f64_sub (axis_max data i) (axis_min data i))) = Finite p"
    and bp: "b = (if 0 \<le> p then \<lfloor>p\<rfloor> else \<lceil>p\<rceil>)"
    by (cases "f64_mul (f64_sub (data ! a ! i) (axis_min data i))
        (f64_div r' (f64_sub (axis_max data i) (axis_min data i)))") auto
  show thesis using that [OF r' p] Mb bp by simp
qed

text \<open>
  When a matrix is returned, the spread of every axis is a positive finite double: on a
  zero spread the scale factor is an infinity or NaN and the scaled offset of every row
  is NaN, on an infinite spread the scaled offset of the row at the maximum is NaN.
\<close>

lemma rescale_data_spread:
  assumes "rescale_data self data = Inr M" "i < length (hd data)"
  obtains y where "f64_sub (axis_max data i) (axis_min data i) = Finite y" "0 < y"
proof -
  from assms(1) have ne: "data \<noteq> []" by (rule rescale_data_Inr)
  obtain a where a: "a < length data" "data ! a ! i = axis_max data i"
    using axis_max_attained [OF ne] by blast
  let ?d = "f64_sub (axis_max data i) (axis_min data i)"
  have "\<exists>r' p. f64_mul ?d (f64_div r' ?d) = Finite p"
  proof (rule rescale_data_entry [OF assms(1) a(1) assms(2)])
    fix r' p
    assume "f64_mul (f64_sub (data ! a ! i) (axis_min data i))
       (f64_div r' (f64_sub (axis_max data i) (axis_min data i))) = Finite p"
    then show ?thesis unfolding a(2) by blast
  qed
  then obtain r' p where p: "f64_mul ?d (f64_div r' ?d) = Finite p" by blast
  obtain y c where y: "?d = Finite y" and c: "f64_div r' ?d = Finite c"
    using p by (rule f64_mul_Finite)
  have "0 \<le> axis_max data i - axis_min data i"
    using axis_min_le [OF a(1), of i] a(2) by simp
  then have y0: "0 \<le> y" by (rule round64_Finite(2) [OF y [unfolded f64_sub_def]])
  have "y \<noteq> 0"
  proof
    assume "y = 0"
    then have "f64_div r' ?d = inf_of_sign r'" by (simp add: y)
    then show False using c by (simp add: inf_of_sign_def split: if_splits)
  qed
  then show thesis using that [OF y] y0 by simp
qed

lemma rescale_data_not_constant:
  assumes "rescale_data self data = Inr M" "i < length (hd data)"
  shows "axis_max data i \<noteq> axis_min data i"
proof
  assume "axis_max data i = axis_min data i"
  then have "f64_sub (axis_max data i) (axis_min data i) = Finite 0"
    by (simp add: f64_sub_def round64_zero)
  moreover obtain y where "f64_sub (axis_max data i) (axis_min data i) = Finite y" "0 < y"
    by (rule rescale_data_spread [OF assms])
  ultimately show False by simp
qed

lemma py_float_Inr: "py_float n = Inr r' \<Longrightarrow> round64 (of_int n) = Finite r'"
  by (cases "round64 (of_int n)") (simp_all add: py_float_def)


text \<open>
  Every entry of a returned matrix in the words of the specification: the scaled
  offset is a finite double that is not negative, and the entry is its floor, clamped.
\<close>

lemma rescale_data_bin:
  assumes "rescale_data self data = Inr M" "a < length data" "i < length (hd data)"
    and "1 \<le> gridResolution self"
  obtains r' y c p where "py_float (gridResolution self) = Inr r'"
    "f64_sub (axis_max data i) (axis_min data i) = Finite y" "0 < y"
    "round64 (r' / y) = Finite c"
    "axis_scale r' data i = Finite c"
    "scaled_offset r' data a i = Finite p" "0 \<le> p"
    "M ! a ! i = spec_bin (gridResolution self) p"
proof -
  let ?r = "gridResolution self"
  let ?d = "f64_sub (axis_max data i) (axis_min data i)"
  let ?o = "f64_sub (data ! a ! i) (axis_min data i)"
  obtain r' p where r': "py_float ?r = Inr r'"
    and p: "f64_mul ?o (f64_div r' ?d) = Finite p"
    and M: "M ! a ! i = min (if 0 \<le> p then \<lfloor>p\<rfloor> else \<lceil>p\<rceil>) (?r - 1)"
    by (rule rescale_data_entry [OF assms(1,2,3)])
  obtain y where y: "?d = Finite y" "0 < y"
    by (rule rescale_data_spread [OF assms(1,3)])
  have nc: "axis_max data i \<noteq> axis_min data i"
    by (rule rescale_data_not_constant [OF assms(1,3)])
  have sc: "axis_scale r' data i = f64_div r' ?d"
    using nc by (simp add: axis_scale_def)
  have dv: "f64_div r' ?d = round64 (r' / y)"
    using y by simp
  obtain x c where x: "?o = Finite x" and c: "f64_div r' ?d = Finite c"
    and xc: "round64 (x * c) = Finite p"
    using p by (rule f64_mul_Finite)
  have rc: "round64 (r' / y) = Finite c" using c dv by simp
  have "(0 :: rat) \<le> of_int ?r" using assms(4) by simp
  then have r'0: "0 \<le> r'"
    by (rule round64_Finite(2) [OF py_float_Inr [OF r']])
  have "0 \<le> r' / y" using r'0 y(2) by simp
  then have c0: "0 \<le> c" by (rule round64_Finite(2) [OF rc])
  have "0 \<le> data ! a ! i - axis_min data i"
    using axis_min_le [OF assms(2), of i] by simp
  then have x0: "0 \<le> x" by (rule round64_Finite(2) [OF x [unfolded f64_sub_def]])
  have "0 \<le> x * c" using x0 c0 by simp
  then have p0: "0 \<le> p" by (rule round64_Finite(2) [OF xc])
  have so: "scaled_offset r' data a i = Finite p"
    unfolding scaled_offset_def sc by (rule p)
  have "0 \<le> \<lfloor>p\<rfloor>" using p0 by simp
  then have bin: "M ! a ! i = spec_bin ?r p"
    using M p0 assms(4) by (simp add: spec_bin_def min.commute)
  show thesis
    using that [OF r' y rc _ so p0 bin] c sc by simp
qed


lemma spec_bin_range: "1 \<le> r \<Longrightarrow> 0 \<le> spec_bin r p \<and> spec_bin r p \<le> r - 1"
  by (simp add: spec_bin_def)

section \<open>Box ids, buckets and offsets\<close>

lemma fold_add_sum:
  fixes s :: int
  shows "fold (\<lambda>i acc. acc + f i) [0..<n] s = s + (\<Sum>i < n. f i)"
  by (induction n) simp_all

lemma index_to_boxe_id_eq:
  "array \<noteq> [] \<Longrightarrow> index_to_boxe_id self array = Inr (mixed_radix (gridResolution self) array)"
  by (cases array) (simp_all add: index_to_boxe_id_def mixed_radix_def fold_add_sum del: fold_simps upt_Suc)

lemma id_incremented_eq:
  "id_incremented self n box_id increment
     = box_id + (\<Sum>i < n. increment ! i * gridResolution self ^ i)"
  by (simp add: id_incremented_def fold_add_sum)

lemma box_lookup_Some: "map_of boxes_dict k = Some l \<Longrightarrow> box_lookup boxes_dict k = l"
  by (simp add: box_lookup_def)

lemma box_lookup_None: "map_of boxes_dict k = None \<Longrightarrow> box_lookup boxes_dict k = []"
  by (simp add: box_lookup_def)

lemma map_of_box_append:
  "map_of (box_append result k i) = (map_of result)(k \<mapsto> box_lookup result k @ [i])"
  by (simp add: box_append_def box_lookup_def update_conv' split: option.splits)

lemma box_lookup_box_append:
  "box_lookup (box_append result k i) k'
     = (if k' = k then box_lookup result k @ [i] else box_lookup result k')"
  by (simp add: box_lookup_def map_of_box_append)

lemma keys_box_append: "fst ` set (box_append result k i) = insert k (fst ` set result)"
  by (simp add: box_append_def dom_update split: option.splits)

lemma get_boxes_loop_eq:
  "\<forall>i \<in> set is. data ! i \<noteq> [] \<Longrightarrow>
   get_boxes_loop self data is result
     = Inr (fold (\<lambda>i res. box_append res (mixed_radix (gridResolution self) (data ! i)) i)
              is result)"
  by (induction "is" arbitrary: result) (simp_all add: index_to_boxe_id_eq)

lemma box_lookup_fold:
  "box_lookup (fold (\<lambda>i res. box_append res (g i) i) is result) k
     = box_lookup result k @ filter (\<lambda>i. g i = k) is"
  by (induction "is" arbitrary: result) (simp_all add: box_lookup_box_append)

lemma keys_fold:
  "fst ` set (fold (\<lambda>i res. box_append res (g i) i) is result) = fst ` set result \<union> g ` set is"
  by (induction "is" arbitrary: result) (auto simp: keys_box_append)

text \<open>What \<^verbatim>\<open>_get_boxes\<close> returns on a matrix whose rows are not empty.\<close>

lemma get_boxes_content:
  assumes "M \<noteq> []" "\<forall>i < length M. M ! i \<noteq> []"
  obtains boxes_dict where "get_boxes self M = Inr boxes_dict"
    "fst ` set boxes_dict = (\<lambda>i. mixed_radix (gridResolution self) (M ! i)) ` {..< length M}"
    "\<And>a k. a \<in> set (box_lookup boxes_dict k)
        \<longleftrightarrow> a < length M \<and> mixed_radix (gridResolution self) (M ! a) = k"
proof -
  let ?g = "\<lambda>i. mixed_radix (gridResolution self) (M ! i)"
  let ?d = "fold (\<lambda>i res. box_append res (?g i) i) [0..<length M] []"
  have "get_boxes_loop self M [0..<length M] [] = Inr ?d"
    using assms(2) by (intro get_boxes_loop_eq) simp
  then have 1: "get_boxes self M = Inr ?d"
    using assms(1) by (cases M) (simp_all add: get_boxes_def)
  have 2: "fst ` set ?d = ?g ` {..< length M}"
    by (simp add: keys_fold lessThan_atLeast0)
  have e: "box_lookup [] k = []" for k
    by (simp add: box_lookup_def)
  have 3: "a \<in> set (box_lookup ?d k) \<longleftrightarrow> a < length M \<and> ?g a = k" for a k
    by (auto simp: box_lookup_fold e)
  show thesis using that [OF 1 2 3] by blast
qed

lemma set_increments:
  "set (increments n) = {xs. length xs = n \<and> set xs \<subseteq> {-1, 0, 1}}"
proof (induction n)
  case 0
  then show ?case by auto
next
  case (Suc n)
  show ?case
  proof (intro set_eqI iffI)
    fix xs assume "xs \<in> set (increments (Suc n))"
    then show "xs \<in> {xs. length xs = Suc n \<and> set xs \<subseteq> {-1, 0, 1}}"
      using Suc.IH by auto
  next
    fix xs :: "int list" assume "xs \<in> {xs. length xs = Suc n \<and> set xs \<subseteq> {-1, 0, 1}}"
    then obtain y ys where xs: "xs = y # ys" "length ys = n" "y \<in> {-1, 0, 1}"
      "set ys \<subseteq> {-1, 0, 1}"
      by (cases xs) auto
    then have "ys \<in> set (increments n)" using Suc.IH by simp
    then show "xs \<in> set (increments (Suc n))" using xs by auto
  qed
qed

section \<open>The pair loop\<close>

lemma set_fold_union:
  assumes "\<And>x ps. set (f x ps) = set ps \<union> g x"
  shows "set (fold f xs ps) = set ps \<union> (\<Union>x \<in> set xs. g x)"
  by (induction xs arbitrary: ps) (auto simp: assms)

lemma fold_preserves:
  assumes "P ps" "\<And>x ps. P ps \<Longrightarrow> P (f x ps)"
  shows "P (fold f xs ps)"
  using assms(1) by (induction xs arbitrary: ps) (simp_all add: assms(2))

lemma set_add_pair: "set (add_pair ps p) = set ps \<union> (if fst p < snd p then {p} else {})"
  by (auto simp: add_pair_def)

lemma oriented_add_pair: "oriented ps \<Longrightarrow> oriented (add_pair ps p)"
  by (auto simp: add_pair_def oriented_def)

lemma set_pairs_increment:
  "set (pairs_increment self n boxes_dict box_id increment ps)
     = set ps \<union> {(a, b). a \<in> set (box_lookup boxes_dict box_id)
                  \<and> b \<in> set (box_lookup boxes_dict (id_incremented self n box_id increment))
                  \<and> a < b}"
proof (cases "map_of boxes_dict (id_incremented self n box_id increment)")
  case None
  then show ?thesis by (simp add: pairs_increment_def box_lookup_None)
next
  case (Some l)
  have "set (fold (\<lambda>p ps. add_pair ps p) xs ps)
          = set ps \<union> (\<Union>p \<in> set xs. if fst p < snd p then {p} else {})" for xs
    by (rule set_fold_union) (rule set_add_pair)
  then show ?thesis using Some
    by (auto simp: pairs_increment_def box_lookup_Some split: if_splits)
qed

lemma oriented_pairs_increment:
  "oriented ps \<Longrightarrow> oriented (pairs_increment self n boxes_dict box_id increment ps)"
proof (cases "map_of boxes_dict (id_incremented self n box_id increment)")
  case None
  assume "oriented ps"
  then show ?thesis using None by (simp add: pairs_increment_def)
next
  case (Some l)
  assume o: "oriented ps"
  have "oriented (fold (\<lambda>p ps. add_pair ps p) xs ps)" for xs
    using o by (rule fold_preserves) (rule oriented_add_pair)
  then show ?thesis using Some by (simp add: pairs_increment_def)
qed

lemma set_pairs_loop:
  "set (pairs_loop self n boxes_dict)
     = {(a, b). a < b \<and> (\<exists>box_id \<in> fst ` set boxes_dict. \<exists>increment \<in> set (increments n).
                   a \<in> set (box_lookup boxes_dict box_id)
                 \<and> b \<in> set (box_lookup boxes_dict (id_incremented self n box_id increment)))}"
proof -
  let ?h = "\<lambda>box_id increment. {(a, b). a \<in> set (box_lookup boxes_dict box_id)
                  \<and> b \<in> set (box_lookup boxes_dict (id_incremented self n box_id increment))
                  \<and> a < b}"
  have inner: "set (fold (pairs_increment self n boxes_dict box_id) incs ps)
                 = set ps \<union> (\<Union>increment \<in> set incs. ?h box_id increment)" for box_id incs ps
    by (rule set_fold_union) (rule set_pairs_increment)
  have "set (fold (\<lambda>box_id pairs. fold (pairs_increment self n boxes_dict box_id)
                      (increments n) pairs) ks ps)
          = set ps \<union> (\<Union>box_id \<in> set ks. \<Union>increment \<in> set (increments n). ?h box_id increment)"
    for ks ps
    by (rule set_fold_union) (rule inner)
  then have "set (pairs_loop self n boxes_dict)
          = (\<Union>box_id \<in> fst ` set boxes_dict. \<Union>increment \<in> set (increments n).
               ?h box_id increment)"
    by (simp add: pairs_loop_def)
  then show ?thesis by auto
qed

lemma oriented_pairs_loop: "oriented (pairs_loop self n boxes_dict)"
proof -
  have inner: "oriented (fold (pairs_increment self n boxes_dict box_id) incs ps)"
    if "oriented ps" for box_id incs ps
    using that by (rule fold_preserves) (rule oriented_pairs_increment)
  have "oriented (fold (\<lambda>box_id pairs. fold (pairs_increment self n boxes_dict box_id)
                      (increments n) pairs) ks [])" for ks
    by (rule fold_preserves) (simp_all add: oriented_def inner [unfolded oriented_def])
  then show ?thesis by (simp add: pairs_loop_def)
qed

lemma get_pairs_Inr:
  assumes "get_pairs self data = Inr pairs"
  obtains M boxes_dict where "data \<noteq> []" "length (hd data) \<le> 3"
    "rescale_data self data = Inr M" "get_boxes self M = Inr boxes_dict"
    "pairs = pairs_loop self (length (hd data)) boxes_dict"
  using assms
  by (cases data) (auto simp: get_pairs_def Let_def split: if_splits sum.splits)

text \<open>
  The pairs \<^verbatim>\<open>_get_pairs\<close> returns: \<open>a < b\<close> are paired exactly when some offset vector
  added to the box id of \<open>a\<close> gives the box id of \<open>b\<close>.
\<close>

lemma get_pairs_content:
  assumes "data \<noteq> []" "hd data \<noteq> []" "length (hd data) \<le> 3"
    and "rescale_data self data = Inr M"
  obtains pairs where "get_pairs self data = Inr pairs"
    "set pairs = {(a, b). a < b \<and> b < length data
        \<and> (\<exists>increment \<in> set (increments (length (hd data))).
              id_incremented self (length (hd data))
                (mixed_radix (gridResolution self) (M ! a)) increment
              = mixed_radix (gridResolution self) (M ! b))}"
proof -
  let ?k = "length (hd data)"
  let ?g = "\<lambda>i. mixed_radix (gridResolution self) (M ! i)"
  have len: "length M = length data" by (rule rescale_data_shape(1) [OF assms(4)])
  have rows: "\<forall>i < length M. M ! i \<noteq> []"
    using rescale_data_shape(2) [OF assms(4)] len assms(2) by fastforce
  have ne: "M \<noteq> []" using len assms(1) by auto
  obtain d where d: "get_boxes self M = Inr d"
    "fst ` set d = ?g ` {..< length M}"
    "\<And>a k. a \<in> set (box_lookup d k) \<longleftrightarrow> a < length M \<and> ?g a = k"
    using get_boxes_content [OF ne rows, of self] by metis
  have 1: "get_pairs self data = Inr (pairs_loop self ?k d)"
    using assms(1,3,4) d(1) by (cases data) (simp_all add: get_pairs_def Let_def)
  have 2: "set (pairs_loop self ?k d) = {(a, b). a < b \<and> b < length data
        \<and> (\<exists>increment \<in> set (increments ?k).
              id_incremented self ?k (?g a) increment = ?g b)}"
    unfolding set_pairs_loop d(2) d(3) len by force
  show thesis using that [OF 1 2] by blast
qed

section \<open>The methods over the store\<close>

lemma cells_setitem:
  "cells (setitem p i x s) q = (if q = p then (cells s p)[i := x] else cells s q)"
  by (simp add: setitem_def)

lemma setitem_overwritten:
  "(setitem p i x s)\<lparr>cells := (cells (setitem p i x s))(p := X)\<rparr>
     = s\<lparr>cells := (cells s)(p := X)\<rparr>"
  by (simp add: setitem_def)

text \<open>
  The scan of one row changes the row at the address of the accumulator (\<^verbatim>\<open>minimum\<close> or
  \<^verbatim>\<open>maximum\<close>) and nothing else, and what it writes there is what the value model
  computes. The comparison is a parameter, so that one proof serves both scans.
\<close>

lemma row_st_fold:
  assumes "vec \<noteq> acc"
  shows "fold (\<lambda>i s. if lt (cells s vec ! i) (cells s acc ! i)
                      then setitem acc i (cells s vec ! i) s else s) is s
       = s\<lparr>cells := (cells s)(acc :=
            fold (\<lambda>i m. if lt (cells s vec ! i) (m ! i) then m[i := cells s vec ! i] else m)
              is (cells s acc))\<rparr>"
proof (induction "is" arbitrary: s)
  case Nil
  show ?case by simp
next
  case (Cons i "is")
  let ?f = "\<lambda>i s. if lt (cells s vec ! i) (cells s acc ! i)
                    then setitem acc i (cells s vec ! i) s else s"
  let ?g = "\<lambda>s i m. if lt (cells s vec ! i) (m ! i) then m[i := cells s vec ! i] else m"
  let ?s' = "?f i s"
  have a: "cells ?s' vec = cells s vec"
    using assms by (simp add: cells_setitem)
  have b: "cells ?s' acc = ?g s i (cells s acc)"
    by (simp add: cells_setitem)
  have c: "?s'\<lparr>cells := (cells ?s')(acc := X)\<rparr> = s\<lparr>cells := (cells s)(acc := X)\<rparr>" for X
    by (simp add: setitem_overwritten)
  have "fold ?f (i # is) s = fold ?f is ?s'" by simp
  also have "\<dots> = ?s'\<lparr>cells := (cells ?s')(acc := fold (?g ?s') is (cells ?s' acc))\<rparr>"
    by (rule Cons.IH)
  also have "\<dots> = s\<lparr>cells := (cells s)(acc := fold (?g ?s') is (cells ?s' acc))\<rparr>"
    by (rule c)
  also have "\<dots> = s\<lparr>cells := (cells s)(acc := fold (?g s) is (?g s i (cells s acc)))\<rparr>"
    by (simp only: a b)
  also have "\<dots> = s\<lparr>cells := (cells s)(acc := fold (?g s) (i # is) (cells s acc))\<rparr>"
    by simp
  finally show ?case .
qed

lemma min_row_st_eq:
  "vec \<noteq> minimum \<Longrightarrow>
   min_row_st n minimum vec s
     = s\<lparr>cells := (cells s)(minimum := min_row n (cells s vec) (cells s minimum))\<rparr>"
  unfolding min_row_st_def min_row_def by (rule row_st_fold)

lemma max_row_st_eq:
  "vec \<noteq> maximum \<Longrightarrow>
   max_row_st n maximum vec s
     = s\<lparr>cells := (cells s)(maximum := max_row n (cells s vec) (cells s maximum))\<rparr>"
  unfolding max_row_st_def max_row_def
  by (rule row_st_fold [where lt = "\<lambda>x y. y < x"])

lemma fold_rows_st:
  assumes step: "\<And>vec s. vec \<noteq> acc \<Longrightarrow>
      F vec s = s\<lparr>cells := (cells s)(acc := G (cells s vec) (cells s acc))\<rparr>"
    and "acc \<notin> set data"
  shows "fold F data s
       = s\<lparr>cells := (cells s)(acc := fold G (map (cells s) data) (cells s acc))\<rparr>"
  using assms(2)
proof (induction data arbitrary: s)
  case Nil
  show ?case by simp
next
  case (Cons vec data)
  have ne: "vec \<noteq> acc" and notin: "acc \<notin> set data"
    using Cons.prems by auto
  let ?m = "G (cells s vec) (cells s acc)"
  let ?s' = "s\<lparr>cells := (cells s)(acc := ?m)\<rparr>"
  have same: "map (cells ?s') data = map (cells s) data"
    using notin by (intro map_cong) auto
  have acc: "cells ?s' acc = ?m" by simp
  have over: "?s'\<lparr>cells := (cells ?s')(acc := X)\<rparr> = s\<lparr>cells := (cells s)(acc := X)\<rparr>" for X
    by simp
  have "fold F (vec # data) s = fold F data (F vec s)" by simp
  also have "\<dots> = fold F data ?s'" by (simp only: step [OF ne])
  also have "\<dots> = ?s'\<lparr>cells := (cells ?s')(acc :=
                      fold G (map (cells ?s') data) (cells ?s' acc))\<rparr>"
    by (rule Cons.IH [OF notin])
  also have "\<dots> = s\<lparr>cells := (cells s)(acc :=
                      fold G (map (cells ?s') data) (cells ?s' acc))\<rparr>"
    by (rule over)
  also have "\<dots> = s\<lparr>cells := (cells s)(acc := fold G (map (cells s) data) ?m)\<rparr>"
    by (simp only: same acc)
  also have "\<dots> = s\<lparr>cells := (cells s)(acc :=
                      fold G (map (cells s) (vec # data)) (cells s acc))\<rparr>"
    by simp
  finally show ?case .
qed

text \<open>
  \<^verbatim>\<open>_get_min\<close> and \<^verbatim>\<open>_get_max\<close> over the store: the result is a new row that holds what
  the value model returns, and the store is otherwise as before.
\<close>

lemma scan_st_eq:
  assumes "\<forall>p \<in> set data. p < next_free s" and d: "data = row0 # rest"
    and step: "\<And>vec s. vec \<noteq> next_free s0 \<Longrightarrow>
      F vec s = s\<lparr>cells := (cells s)(next_free s0 := G (cells s vec) (cells s (next_free s0)))\<rparr>"
    and s0: "s0 = s"
  shows "fold F data (snd (np_copy row0 s))
       = s\<lparr>cells := (cells s)(next_free s := fold G (read_matrix s data) (cells s row0)),
            next_free := Suc (next_free s)\<rparr>"
proof -
  let ?s1 = "s\<lparr>cells := (cells s)(next_free s := cells s row0), next_free := Suc (next_free s)\<rparr>"
  have notin: "next_free s \<notin> set data" using assms(1) by auto
  have same: "map (cells ?s1) data = map (cells s) data"
    using notin by (intro map_cong) auto
  have acc: "cells ?s1 (next_free s) = cells s row0" by simp
  have "fold F data ?s1
      = ?s1\<lparr>cells := (cells ?s1)(next_free s :=
            fold G (map (cells ?s1) data) (cells ?s1 (next_free s)))\<rparr>"
    using step notin unfolding s0 by (rule fold_rows_st)
  also have "\<dots> = ?s1\<lparr>cells := (cells ?s1)(next_free s :=
            fold G (map (cells s) data) (cells s row0))\<rparr>"
    by (simp only: same acc)
  also have "\<dots> = s\<lparr>cells := (cells s)(next_free s :=
            fold G (map (cells s) data) (cells s row0)), next_free := Suc (next_free s)\<rparr>"
    by simp
  finally show ?thesis by (simp add: np_copy_def new_row_def read_matrix_def)
qed

lemma get_min_st_eq:
  assumes "\<forall>p \<in> set data. p < next_free s" "data \<noteq> []"
  shows "\<exists>minimum. get_min (read_matrix s data) = Inr minimum
       \<and> get_min_st data s
           = (Inr (next_free s),
              s\<lparr>cells := (cells s)(next_free s := minimum), next_free := Suc (next_free s)\<rparr>)"
proof -
  obtain row0 rest where d: "data = row0 # rest" using assms(2) by (cases data) auto
  let ?n = "length (cells s row0)"
  have run: "fold (min_row_st ?n (next_free s)) data (snd (np_copy row0 s))
       = s\<lparr>cells := (cells s)(next_free s := fold (min_row ?n) (read_matrix s data) (cells s row0)),
            next_free := Suc (next_free s)\<rparr>"
    by (rule scan_st_eq [OF assms(1) d _ refl]) (rule min_row_st_eq)
  have 1: "get_min (read_matrix s data)
      = Inr (fold (min_row ?n) (read_matrix s data) (cells s row0))"
    by (simp add: get_min_def read_matrix_def d)
  have 2: "get_min_st data s
      = (Inr (next_free s), fold (min_row_st ?n (next_free s)) data (snd (np_copy row0 s)))"
    by (simp add: get_min_st_def d np_copy_def new_row_def Let_def)
  show ?thesis unfolding 1 2 run by simp
qed

lemma get_max_st_eq:
  assumes "\<forall>p \<in> set data. p < next_free s" "data \<noteq> []"
  shows "\<exists>maximum. get_max (read_matrix s data) = Inr maximum
       \<and> get_max_st data s
           = (Inr (next_free s),
              s\<lparr>cells := (cells s)(next_free s := maximum), next_free := Suc (next_free s)\<rparr>)"
proof -
  obtain row0 rest where d: "data = row0 # rest" using assms(2) by (cases data) auto
  let ?n = "length (cells s row0)"
  have run: "fold (max_row_st ?n (next_free s)) data (snd (np_copy row0 s))
       = s\<lparr>cells := (cells s)(next_free s := fold (max_row ?n) (read_matrix s data) (cells s row0)),
            next_free := Suc (next_free s)\<rparr>"
    by (rule scan_st_eq [OF assms(1) d _ refl]) (rule max_row_st_eq)
  have 1: "get_max (read_matrix s data)
      = Inr (fold (max_row ?n) (read_matrix s data) (cells s row0))"
    by (simp add: get_max_def read_matrix_def d)
  have 2: "get_max_st data s
      = (Inr (next_free s), fold (max_row_st ?n (next_free s)) data (snd (np_copy row0 s)))"
    by (simp add: get_max_st_def d np_copy_def new_row_def Let_def)
  show ?thesis unfolding 1 2 run by simp
qed

lemma read_matrix_alloc:
  assumes "\<forall>p \<in> set data. p < next_free s"
  shows "read_matrix (s\<lparr>cells := (cells s)(next_free s := X), next_free := N\<rparr>) data
       = read_matrix s data"
  unfolding read_matrix_def using assms by (intro map_cong) auto

lemma get_min_st_frame:
  assumes "\<forall>p \<in> set data. p < next_free s"
  shows "read_matrix (snd (get_min_st data s)) data = read_matrix s data"
proof (cases "data = []")
  case True
  then show ?thesis by (simp add: get_min_st_def)
next
  case False
  from get_min_st_eq [OF assms False] obtain minimum where
    "get_min_st data s
       = (Inr (next_free s),
          s\<lparr>cells := (cells s)(next_free s := minimum), next_free := Suc (next_free s)\<rparr>)"
    by blast
  then show ?thesis by (simp only: snd_conv read_matrix_alloc [OF assms])
qed

lemma get_max_st_frame:
  assumes "\<forall>p \<in> set data. p < next_free s"
  shows "read_matrix (snd (get_max_st data s)) data = read_matrix s data"
proof (cases "data = []")
  case True
  then show ?thesis by (simp add: get_max_st_def)
next
  case False
  from get_max_st_eq [OF assms False] obtain maximum where
    "get_max_st data s
       = (Inr (next_free s),
          s\<lparr>cells := (cells s)(next_free s := maximum), next_free := Suc (next_free s)\<rparr>)"
    by blast
  then show ?thesis by (simp only: snd_conv read_matrix_alloc [OF assms])
qed

lemma get_min_st_fresh:
  assumes "\<forall>p \<in> set data. p < next_free s"
  shows "fst (get_min_st data s) \<notin> Inr ` set data"
proof (cases "data = []")
  case True
  then show ?thesis by (simp add: get_min_st_def)
next
  case False
  from get_min_st_eq [OF assms False] have "fst (get_min_st data s) = Inr (next_free s)"
    by auto
  then show ?thesis using assms by auto
qed

lemma get_max_st_fresh:
  assumes "\<forall>p \<in> set data. p < next_free s"
  shows "fst (get_max_st data s) \<notin> Inr ` set data"
proof (cases "data = []")
  case True
  then show ?thesis by (simp add: get_max_st_def)
next
  case False
  from get_max_st_eq [OF assms False] have "fst (get_max_st data s) = Inr (next_free s)"
    by auto
  then show ?thesis using assms by auto
qed

text \<open>
  \<^verbatim>\<open>_rescale_data\<close> over the store returns what the value model returns on the contents
  of \<^verbatim>\<open>data\<close>, and leaves these contents as they were.
\<close>

lemma rescale_data_st_eq:
  assumes "\<forall>p \<in> set data. p < next_free s"
  shows "fst (rescale_data_st self data s) = rescale_data self (read_matrix s data)
       \<and> read_matrix (snd (rescale_data_st self data s)) data = read_matrix s data"
proof (cases data)
  case Nil
  then show ?thesis by (simp add: rescale_data_st_def rescale_data_def read_matrix_def)
next
  case (Cons row0 rest)
  then have ne: "data \<noteq> []" by simp
  let ?r = "gridResolution self"
  let ?n = "length (cells s row0)"
  from get_max_st_eq [OF assms ne] obtain maximum where
    mx: "get_max (read_matrix s data) = Inr maximum" and
    mxst: "get_max_st data s
       = (Inr (next_free s),
          s\<lparr>cells := (cells s)(next_free s := maximum), next_free := Suc (next_free s)\<rparr>)"
    by blast
  define s1 where
    "s1 = s\<lparr>cells := (cells s)(next_free s := maximum), next_free := Suc (next_free s)\<rparr>"
  have nf1: "next_free s1 = Suc (next_free s)" by (simp add: s1_def)
  have alloc1: "\<forall>p \<in> set data. p < next_free s1" using assms nf1 by auto
  have rm1: "read_matrix s1 data = read_matrix s data"
    unfolding s1_def by (rule read_matrix_alloc [OF assms])
  from get_min_st_eq [OF alloc1 ne] obtain minimum where
    mn: "get_min (read_matrix s1 data) = Inr minimum" and
    mnst: "get_min_st data s1
       = (Inr (next_free s1),
          s1\<lparr>cells := (cells s1)(next_free s1 := minimum), next_free := Suc (next_free s1)\<rparr>)"
    by blast
  define s2 where
    "s2 = s1\<lparr>cells := (cells s1)(next_free s1 := minimum), next_free := Suc (next_free s1)\<rparr>"
  have rm2: "read_matrix s2 data = read_matrix s1 data"
    unfolding s2_def by (rule read_matrix_alloc [OF alloc1])
  have c_max: "cells s2 (next_free s) = maximum"
    by (simp add: s2_def s1_def)
  have c_min: "cells s2 (next_free s1) = minimum"
    by (simp add: s2_def)
  have c_vec: "cells s2 vec = cells s vec" if "vec \<in> set data" for vec
    using that assms by (auto simp: s2_def s1_def)
  have rows: "map (\<lambda>vec. rescale_vec ?r minimum coef ?n (cells s2 vec)) data
            = map (rescale_vec ?r minimum coef ?n) (read_matrix s data)" for coef
    unfolding read_matrix_def map_map comp_def
    by (intro map_cong refl) (simp add: c_vec)
  have st: "rescale_data_st self data s
          = (case rescale_coef ?r maximum minimum ?n of
               Inl e \<Rightarrow> (Inl e, s2)
             | Inr coef \<Rightarrow>
                 (collect (map (rescale_vec ?r minimum coef ?n) (read_matrix s data)), s2))"
    unfolding rows [symmetric]
    by (simp add: rescale_data_st_def Cons [symmetric] mxst [folded s1_def]
        mnst [folded s2_def] c_max c_min Let_def list.case_eq_if ne cong: sum.case_cong)
       (simp add: Cons c_min cong: sum.case_cong)
  have pure: "rescale_data self (read_matrix s data)
          = (case rescale_coef ?r maximum minimum ?n of
               Inl e \<Rightarrow> Inl e
             | Inr coef \<Rightarrow>
                 collect (map (rescale_vec ?r minimum coef ?n) (read_matrix s data)))"
    using mx mn [unfolded rm1]
    by (simp add: rescale_data_def Let_def list.case_eq_if ne read_matrix_def
        cong: sum.case_cong)
       (simp add: Cons read_matrix_def cong: sum.case_cong)
  show ?thesis
    unfolding st pure using rm2 rm1 by (simp split: sum.split)
qed

text \<open>\<^verbatim>\<open>_get_boxes\<close> only reads: the store it returns is the store it is given.\<close>

lemma get_boxes_loop_st_eq:
  assumes "\<forall>i \<in> set is. i < length data"
  shows "get_boxes_loop_st self data is result t
       = (get_boxes_loop self (read_matrix t data) is result, t)"
  using assms
proof (induction "is" arbitrary: result)
  case Nil
  show ?case by simp
next
  case (Cons i "is")
  have i: "read_matrix t data ! i = cells t (data ! i)"
    using Cons.prems by (simp add: read_matrix_def)
  have rest: "\<forall>i \<in> set is. i < length data" using Cons.prems by simp
  show ?case
    by (simp add: i Cons.IH [OF rest] split: sum.split)
qed

lemma get_boxes_st_eq:
  "get_boxes_st self data t = (get_boxes self (read_matrix t data), t)"
proof (cases data)
  case Nil
  then show ?thesis by (simp add: get_boxes_st_def get_boxes_def read_matrix_def)
next
  case (Cons row0 rest)
  have "get_boxes_loop_st self data [0..<length data] [] t
      = (get_boxes_loop self (read_matrix t data) [0..<length data] [], t)"
    by (rule get_boxes_loop_st_eq) simp
  then show ?thesis
    by (simp add: get_boxes_st_def get_boxes_def read_matrix_def Cons)
qed

text \<open>\<^verbatim>\<open>np.array\<close> on a list of lists gives an array that holds these lists.\<close>

lemma np_array_shape:
  "np_array rows s = (ps, s') \<Longrightarrow>
     next_free s \<le> next_free s'
     \<and> (\<forall>p \<in> set ps. next_free s \<le> p \<and> p < next_free s')
     \<and> (\<forall>q < next_free s. cells s' q = cells s q)
     \<and> read_matrix s' ps = rows"
proof (induction rows arbitrary: s ps s')
  case Nil
  then show ?case by (simp add: read_matrix_def)
next
  case (Cons xs rows)
  let ?s1 = "s\<lparr>cells := (cells s)(next_free s := xs), next_free := Suc (next_free s)\<rparr>"
  obtain ps2 s2 where r: "np_array rows ?s1 = (ps2, s2)" by (cases "np_array rows ?s1")
  have ps: "ps = next_free s # ps2" and s': "s' = s2"
    using Cons.prems r by (simp_all add: new_row_def)
  from Cons.IH [OF r] have
    a: "next_free ?s1 \<le> next_free s2" and
    b: "\<forall>p \<in> set ps2. next_free ?s1 \<le> p \<and> p < next_free s2" and
    c: "\<forall>q < next_free ?s1. cells s2 q = cells ?s1 q" and
    d: "read_matrix s2 ps2 = rows"
    by blast+
  have nf: "next_free ?s1 = Suc (next_free s)" by simp
  have 1: "next_free s \<le> next_free s'" using a nf s' by simp
  have 2: "\<forall>p \<in> set ps. next_free s \<le> p \<and> p < next_free s'"
    using a b nf unfolding ps s' by auto
  have 3: "\<forall>q < next_free s. cells s' q = cells s q"
    using c nf unfolding s' by auto
  have "cells s2 (next_free s) = xs" using c nf by simp
  then have 4: "read_matrix s' ps = xs # rows"
    using d unfolding ps s' by (simp add: read_matrix_def)
  show ?case using 1 2 3 4 by blast
qed

text \<open>
  \<^verbatim>\<open>_get_pairs\<close> over the store returns what the value model returns on the contents of
  \<^verbatim>\<open>data\<close>, and leaves these contents as they were.
\<close>

lemma get_pairs_st_eq:
  assumes "\<forall>p \<in> set data. p < next_free s"
  shows "fst (get_pairs_st self data s) = get_pairs self (read_matrix s data)
       \<and> read_matrix (snd (get_pairs_st self data s)) data = read_matrix s data"
proof (cases data)
  case Nil
  then show ?thesis by (simp add: get_pairs_st_def get_pairs_def read_matrix_def)
next
  case (Cons row0 rest)
  let ?n = "length (cells s row0)"
  obtain res s1 where rs: "rescale_data_st self data s = (res, s1)"
    by (cases "rescale_data_st self data s")
  from rescale_data_st_eq [OF assms, of self] rs have
    res: "res = rescale_data self (read_matrix s data)" and
    fr: "read_matrix s1 data = read_matrix s data"
    by simp_all
  have hd: "read_matrix s (row0 # rest) = cells s row0 # read_matrix s rest"
    by (simp add: read_matrix_def)
  show ?thesis
  proof (cases "3 < ?n")
    case True
    then show ?thesis by (simp add: get_pairs_st_def get_pairs_def hd Cons)
  next
    case False
    show ?thesis
    proof (cases res)
      case (Inl e)
      then show ?thesis
        using False rs fr res [symmetric]
        by (simp add: get_pairs_st_def get_pairs_def hd Cons)
    next
      case (Inr rescaled)
      obtain rescaled_data t where na: "np_array rescaled empty_store = (rescaled_data, t)"
        by (cases "np_array rescaled (empty_store :: int store)")
      have rd: "read_matrix t rescaled_data = rescaled"
        using np_array_shape [OF na] by blast
      have gb: "get_boxes_st self rescaled_data t = (get_boxes self rescaled, t)"
        by (simp only: get_boxes_st_eq rd)
      show ?thesis
        using False rs fr res [symmetric] Inr na gb
        by (simp add: get_pairs_st_def get_pairs_def hd Cons split: sum.split)
    qed
  qed
qed

section \<open>Rescaling: constant axes and the clamp\<close>

text \<open>
  Claim C3. The handler of \<^verbatim>\<open>_rescale_data\<close> is written to give a constant axis the scale
  factor 0, but the division it guards is numpy's and raises nothing. With resolution 4
  and the rows (2.5, 1), (2.5, 3) the first axis is constant: its scale factor is an
  infinity, the scaled offset of the first entry is NaN, and \<^verbatim>\<open>int\<close> raises
  \<^verbatim>\<open>ValueError\<close>. No matrix is returned and no row is assigned bin 0.
\<close>

theorem rescale_data_constant_axis_raises:
  "axis_max [[5 / 2, 1], [5 / 2, 3]] 0 = axis_min [[5 / 2, 1], [5 / 2, 3]] 0
   \<and> get_max [[5 / 2, 1], [5 / 2, 3]] = Inr [5 / 2, 3]
   \<and> get_min [[5 / 2, 1], [5 / 2, 3]] = Inr [5 / 2, 1]
   \<and> coef_round 4 [5 / 2, 3] [5 / 2, 1] 0 = Inr PInf
   \<and> f64_mul (f64_sub (5 / 2) (5 / 2)) PInf = NaN
   \<and> rescale_data \<lparr>dimReducer = Inr, gridResolution = 4\<rparr> [[5 / 2, 1], [5 / 2, 3]]
       = Inl ValueError"
proof -
  have 1: "axis_max [[5 / 2, 1], [5 / 2, 3]] 0 = axis_min [[5 / 2, 1], [5 / 2, 3]] 0"
    by (simp add: axis_max_def axis_min_def)
  have 2: "get_max [[5 / 2, 1], [5 / 2, 3]] = Inr [5 / 2, 3]" by code_simp
  have 3: "get_min [[5 / 2, 1], [5 / 2, 3]] = Inr [5 / 2, 1]" by code_simp
  have 4: "coef_round 4 [5 / 2, 3] [5 / 2, 1] 0 = Inr PInf" by code_simp
  have 5: "f64_mul (f64_sub (5 / 2) (5 / 2)) PInf = NaN" by code_simp
  have 6: "rescale_data \<lparr>dimReducer = Inr, gridResolution = 4\<rparr> [[5 / 2, 1], [5 / 2, 3]]
       = Inl ValueError"
    by code_simp
  show ?thesis using 1 2 3 4 5 6 by blast
qed




section \<open>Errors\<close>

text \<open>
  Claim C7. A reduced dataset with more than three columns makes \<^verbatim>\<open>_get_pairs\<close> fail
  with a value error, whatever the resolution and the entries are: the check comes
  before the rescaling, the bucketing and the pair loop. \<^verbatim>\<open>get_similar_indices\<close> fails
  the same way when the reducer returns such a dataset.
\<close>

theorem get_pairs_too_wide:
  assumes "data \<noteq> []" and "3 < length (hd data)"
  shows "get_pairs self data = Inl ValueError
       \<and> (dimReducer self raw = Inr data \<longrightarrow> get_similar_indices self raw = Inl ValueError)"
  using assms by (cases data) (simp_all add: get_pairs_def get_similar_indices_def)

theorem get_pairs_too_wide_witness:
  "get_pairs \<lparr>dimReducer = Inr, gridResolution = 4\<rparr> [[1, 2, 3, 4]] = Inl ValueError
   \<and> get_similar_indices \<lparr>dimReducer = Inr, gridResolution = 4\<rparr> [[1, 2, 3, 4]]
       = Inl ValueError"
proof -
  have h1: "[[1, 2, 3, 4 :: rat]] \<noteq> []" by simp
  have h2: "3 < length (hd [[1, 2, 3, 4 :: rat]])" by simp
  show ?thesis
    using get_pairs_too_wide [OF h1 h2, of "\<lparr>dimReducer = Inr, gridResolution = 4\<rparr>"
        "[[1, 2, 3, 4]]"]
    by simp
qed

text \<open>
  Claim C8, as stated, fails: on a dataset without rows the scan does not raise the
  type error of the input check; \<^verbatim>\<open>data[0]\<close> raises an index error.
\<close>

theorem get_min_empty_counterexample:
  "get_min [] \<noteq> Inl TypeError \<and> get_max [] \<noteq> Inl TypeError"
  by (simp add: get_min_def get_max_def)

text \<open>
  Claim C8, amended. Given a dataset without rows, \<^verbatim>\<open>_get_min\<close> and \<^verbatim>\<open>_get_max\<close>, and with
  them \<^verbatim>\<open>_rescale_data\<close>, \<^verbatim>\<open>_get_boxes\<close>, \<^verbatim>\<open>_get_pairs\<close> and \<^verbatim>\<open>get_similar_indices\<close>,
  fail with an index error and return no result.
\<close>

theorem empty_dataset_index_error:
  "get_min [] = Inl IndexError \<and> get_max [] = Inl IndexError
   \<and> rescale_data self [] = Inl IndexError \<and> get_boxes self [] = Inl IndexError
   \<and> get_pairs self [] = Inl IndexError
   \<and> get_similar_indices (self\<lparr>dimReducer := \<lambda>raw. Inr []\<rparr>) raw = Inl IndexError"
  by (simp add: get_min_def get_max_def rescale_data_def get_boxes_def get_pairs_def
      get_similar_indices_def)

section \<open>The scenario of the specification\<close>

text \<open>
  Claim C5. With resolution 4, the one-column dataset with the values 0, 1, 2, 3, 10
  rescales to the bins 0, 0, 0, 1, 3, and \<^verbatim>\<open>_get_pairs\<close> returns exactly the pairs
  (0,1), (0,2), (1,2), (0,3), (1,3), (2,3).
\<close>

theorem scenario_resolution_4:
  "rescale_data \<lparr>dimReducer = Inr, gridResolution = 4\<rparr> [[0], [1], [2], [3], [10]]
     = Inr [[0], [0], [0], [1], [3]]
   \<and> (\<exists>pairs. get_pairs \<lparr>dimReducer = Inr, gridResolution = 4\<rparr> [[0], [1], [2], [3], [10]]
                = Inr pairs
        \<and> set pairs = {(0, 1), (0, 2), (1, 2), (0, 3), (1, 3), (2, 3)})"
proof -
  have 1: "rescale_data \<lparr>dimReducer = Inr, gridResolution = 4\<rparr> [[0], [1], [2], [3], [10]]
     = Inr [[0], [0], [0], [1], [3]]"
    by code_simp
  have 2: "get_pairs \<lparr>dimReducer = Inr, gridResolution = 4\<rparr> [[0], [1], [2], [3], [10]]
     = Inr [(0, 1), (0, 2), (1, 2), (0, 3), (1, 3), (2, 3)]"
    by code_simp
  show ?thesis unfolding 1 2 by auto
qed

section \<open>The pairs returned by \<^verbatim>\<open>_get_pairs\<close>\<close>






text \<open>
  Claim C2. Every pair \<open>(a, b)\<close> in the list returned by \<^verbatim>\<open>_get_pairs\<close>, and so by
  \<^verbatim>\<open>get_similar_indices\<close>, has \<open>a < b\<close>, and no entry occurs twice: an unordered pair of
  rows appears at most once.
\<close>

theorem get_pairs_oriented_distinct:
  assumes "get_pairs self data = Inr pairs \<or> get_similar_indices self data = Inr pairs"
  shows "distinct pairs \<and> (\<forall>(a, b) \<in> set pairs. a < b \<and> (b, a) \<notin> set pairs)"
proof -
  obtain reduced where "get_pairs self reduced = Inr pairs"
    using assms by (auto simp: get_similar_indices_def split: sum.splits)
  then obtain n boxes_dict where "pairs = pairs_loop self n boxes_dict"
    by (elim get_pairs_Inr) blast
  then have "oriented pairs" by (simp add: oriented_pairs_loop)
  then have d: "distinct pairs" and lt: "\<And>p. p \<in> set pairs \<Longrightarrow> fst p < snd p"
    by (simp_all add: oriented_def)
  have "a < b \<and> (b, a) \<notin> set pairs" if "(a, b) \<in> set pairs" for a b
  proof
    show "a < b" using lt [OF that] by simp
    show "(b, a) \<notin> set pairs"
    proof
      assume "(b, a) \<in> set pairs"
      then have "b < a" using lt by fastforce
      then show False using \<open>a < b\<close> by simp
    qed
  qed
  then show ?thesis using d by blast
qed

theorem get_pairs_oriented_distinct_witness:
  "distinct [(0, 1), (0, 2), (1, 2), (0, 3), (1, 3), (2, 3) :: nat \<times> nat]
   \<and> (0 :: nat) < 3
   \<and> (3, 0) \<notin> set [(0, 1), (0, 2), (1, 2), (0, 3), (1, 3), (2, 3) :: nat \<times> nat]"
proof -
  let ?ps = "[(0, 1), (0, 2), (1, 2), (0, 3), (1, 3), (2, 3) :: nat \<times> nat]"
  have "get_pairs \<lparr>dimReducer = Inr, gridResolution = 4\<rparr> [[0], [1], [2], [3], [10]]
     = Inr ?ps"
    by code_simp
  then have h: "get_pairs \<lparr>dimReducer = Inr, gridResolution = 4\<rparr> [[0], [1], [2], [3], [10]]
     = Inr ?ps
   \<or> get_similar_indices \<lparr>dimReducer = Inr, gridResolution = 4\<rparr> [[0], [1], [2], [3], [10]]
     = Inr ?ps"
    by (rule disjI1)
  have d: "distinct ?ps"
    and all: "\<forall>(a, b) \<in> set ?ps. a < b \<and> (b, a) \<notin> set ?ps"
    using get_pairs_oriented_distinct [OF h] by blast+
  have m: "(0, 3) \<in> set ?ps" by simp
  have "(0 :: nat) < 3 \<and> (3, 0) \<notin> set ?ps"
    using all m by blast
  then show ?thesis using d by blast
qed



section \<open>Resolution 1\<close>

lemma mixed_radix_zeros:
  assumes "\<forall>i < length v. v ! i = 0"
  shows "mixed_radix r v = 0"
  using assms by (simp add: mixed_radix_def)

text \<open>
  With resolution 1, a returned matrix has bin 0 everywhere, and \<^verbatim>\<open>_get_pairs\<close> returns
  all pairs \<open>(a, b)\<close> of row indices with \<open>a < b\<close>.
\<close>

lemma resolution_1_all_pairs:
  assumes "rescale_data self data = Inr M" and "hd data \<noteq> []" and "length (hd data) \<le> 3"
    and "gridResolution self = 1"
  shows "(\<forall>a < length data. \<forall>i < length (hd data). M ! a ! i = 0)
       \<and> (\<exists>pairs. get_pairs self data = Inr pairs
            \<and> set pairs = {(a, b). a < b \<and> b < length data})"
proof -
  let ?k = "length (hd data)"
  have ne: "data \<noteq> []" using assms(1) by (rule rescale_data_Inr)
  have r1: "1 \<le> gridResolution self" using assms(4) by simp
  have rows: "length (M ! a) = ?k" if "a < length data" for a
    using that by (rule rescale_data_shape(2) [OF assms(1)])
  have zero: "M ! a ! i = 0" if "a < length data" "i < ?k" for a i
  proof (rule rescale_data_bin [OF assms(1) that r1])
    fix p assume "M ! a ! i = spec_bin (gridResolution self) p"
    then show ?thesis using spec_bin_range [OF r1, of p] assms(4) by simp
  qed
  have mr: "mixed_radix (gridResolution self) (M ! a) = 0" if "a < length data" for a
    using zero [OF that] rows [OF that] by (intro mixed_radix_zeros) simp
  have z: "replicate ?k 0 \<in> set (increments ?k)"
    by (auto simp: set_increments)
  have idz: "id_incremented self ?k 0 (replicate ?k 0) = 0"
    by (simp add: id_incremented_eq)
  have "\<exists>pairs. get_pairs self data = Inr pairs
            \<and> set pairs = {(a, b). a < b \<and> b < length data}"
  proof (rule get_pairs_content [OF ne assms(2,3,1)])
    fix pairs
    assume p: "get_pairs self data = Inr pairs"
      and q: "set pairs = {(a, b). a < b \<and> b < length data
        \<and> (\<exists>increment \<in> set (increments ?k).
              id_incremented self ?k (mixed_radix (gridResolution self) (M ! a)) increment
              = mixed_radix (gridResolution self) (M ! b))}"
    have "set pairs = {(a, b). a < b \<and> b < length data}"
    proof (intro set_eqI iffI)
      fix x assume "x \<in> set pairs"
      then show "x \<in> {(a, b). a < b \<and> b < length data}"
        unfolding q by auto
    next
      fix x assume x: "x \<in> {(a, b). a < b \<and> b < length data}"
      obtain a b where ab: "x = (a, b)" by (cases x)
      have lt: "a < b" "b < length data" "a < length data" using x ab by auto
      have "\<exists>increment \<in> set (increments ?k).
              id_incremented self ?k (mixed_radix (gridResolution self) (M ! a)) increment
              = mixed_radix (gridResolution self) (M ! b)"
        unfolding mr [OF lt(2)] mr [OF lt(3)] using z idz by (rule bexI [rotated])
      then show "x \<in> set pairs"
        unfolding q ab using lt by simp
    qed
    then show ?thesis using p by blast
  qed
  then show ?thesis using zero by blast
qed

text \<open>
  Claim C10. With resolution 1 the rows of the reduced dataset (2.5, 1), (2.5, 3) are
  not rescaled to bin 0 and the pair (0, 1) is not returned: the first axis is constant,
  its scale factor is an infinity, and \<^verbatim>\<open>_rescale_data\<close>, and with it \<^verbatim>\<open>_get_pairs\<close>,
  raises \<^verbatim>\<open>ValueError\<close>. Every dataset of one row fails in the same way.
\<close>

theorem get_pairs_resolution_1_raises:
  "rescale_data \<lparr>dimReducer = Inr, gridResolution = 1\<rparr> [[5 / 2, 1], [5 / 2, 3]]
     = Inl ValueError
   \<and> get_pairs \<lparr>dimReducer = Inr, gridResolution = 1\<rparr> [[5 / 2, 1], [5 / 2, 3]]
     = Inl ValueError
   \<and> get_pairs \<lparr>dimReducer = Inr, gridResolution = 1\<rparr> [[5 / 2, 1]] = Inl ValueError"
proof -
  have 1: "rescale_data \<lparr>dimReducer = Inr, gridResolution = 1\<rparr> [[5 / 2, 1], [5 / 2, 3]]
     = Inl ValueError"
    by code_simp
  have 2: "get_pairs \<lparr>dimReducer = Inr, gridResolution = 1\<rparr> [[5 / 2, 1], [5 / 2, 3]]
     = Inl ValueError"
    by code_simp
  have 3: "get_pairs \<lparr>dimReducer = Inr, gridResolution = 1\<rparr> [[5 / 2, 1]] = Inl ValueError"
    by code_simp
  show ?thesis using 1 2 3 by blast
qed

section \<open>The input array is left as it was\<close>

text \<open>
  Claim C9. None of \<^verbatim>\<open>_get_min\<close>, \<^verbatim>\<open>_get_max\<close>, \<^verbatim>\<open>_rescale_data\<close>, \<^verbatim>\<open>_get_boxes\<close> and
  \<^verbatim>\<open>_get_pairs\<close> changes the array it is given. In a store where the rows of \<^verbatim>\<open>data\<close> are
  allocated (they lie below the next free address), the rows read after the call are
  the rows read before it, whether the call returns or raises; \<^verbatim>\<open>_get_boxes\<close> writes
  nothing at all; and the array that \<^verbatim>\<open>_get_min\<close> or \<^verbatim>\<open>_get_max\<close> returns is none of the
  rows of \<^verbatim>\<open>data\<close>, so that a later write to the result does not reach the input.
\<close>

theorem methods_do_not_mutate:
  assumes "\<forall>p \<in> set data. p < next_free s"
  shows "read_matrix (snd (get_min_st data s)) data = read_matrix s data
       \<and> read_matrix (snd (get_max_st data s)) data = read_matrix s data
       \<and> read_matrix (snd (rescale_data_st self data s)) data = read_matrix s data
       \<and> read_matrix (snd (get_pairs_st self data s)) data = read_matrix s data
       \<and> snd (get_boxes_st self rescaled_data t) = t
       \<and> fst (get_min_st data s) \<notin> Inr ` set data
       \<and> fst (get_max_st data s) \<notin> Inr ` set data"
proof -
  have 1: "read_matrix (snd (get_min_st data s)) data = read_matrix s data"
    by (rule get_min_st_frame [OF assms])
  have 2: "read_matrix (snd (get_max_st data s)) data = read_matrix s data"
    by (rule get_max_st_frame [OF assms])
  have 3: "read_matrix (snd (rescale_data_st self data s)) data = read_matrix s data"
    using rescale_data_st_eq [OF assms] by blast
  have 4: "read_matrix (snd (get_pairs_st self data s)) data = read_matrix s data"
    using get_pairs_st_eq [OF assms] by blast
  have 5: "snd (get_boxes_st self rescaled_data t) = t"
    by (simp add: get_boxes_st_eq)
  have 6: "fst (get_min_st data s) \<notin> Inr ` set data"
    by (rule get_min_st_fresh [OF assms])
  have 7: "fst (get_max_st data s) \<notin> Inr ` set data"
    by (rule get_max_st_fresh [OF assms])
  show ?thesis using 1 2 3 4 5 6 7 by blast
qed

theorem methods_do_not_mutate_witness:
  "read_matrix (snd (get_min_st [0, 1]
       \<lparr>cells = (\<lambda>p. [])(0 := [1, 5], 1 := [3, 2]), next_free = 2\<rparr>)) [0, 1]
     = [[1, 5], [3, 2]]
   \<and> read_matrix (snd (get_pairs_st \<lparr>dimReducer = Inr, gridResolution = 4\<rparr> [0, 1]
       \<lparr>cells = (\<lambda>p. [])(0 := [1, 5], 1 := [3, 2]), next_free = 2\<rparr>)) [0, 1]
     = [[1, 5], [3, 2]]
   \<and> fst (get_min_st [0, 1]
       \<lparr>cells = (\<lambda>p. [])(0 := [1, 5], 1 := [3, 2]), next_free = 2\<rparr>) = Inr 2"
proof -
  let ?s = "\<lparr>cells = (\<lambda>p. [])(0 := [1, 5], 1 := [3, 2 :: rat]), next_free = 2\<rparr>"
  let ?self = "\<lparr>dimReducer = Inr, gridResolution = 4\<rparr>"
  have h: "\<forall>p \<in> set [0, 1]. p < next_free ?s" by simp
  have r: "read_matrix ?s [0, 1] = [[1, 5], [3, 2]]" by (simp add: read_matrix_def)
  have 1: "read_matrix (snd (get_min_st [0, 1] ?s)) [0, 1] = read_matrix ?s [0, 1]"
    and 2: "read_matrix (snd (get_pairs_st ?self [0, 1] ?s)) [0, 1] = read_matrix ?s [0, 1]"
    using methods_do_not_mutate [OF h, of ?self] by blast+
  have 3: "fst (get_min_st [0, 1] ?s) = Inr 2"
    by (simp add: get_min_st_def np_copy_def new_row_def)
  show ?thesis using 1 2 3 unfolding r by blast
qed

end
